theory Spec2Isabelle
  imports Main
begin

section \<open>Memory model\<close>

text \<open>
  The program is C: concepts, slot arrays and strings live on the heap and are reached
  through pointers, and several pointers may hold the same address. The heap is therefore
  an explicit store. An address is an index into the list of cells; a pointer is an
  optional address, \<open>None\<close> being \<open>NULL\<close>. A cell is \<open>None\<close> once it has been
  released, and an allocation always takes the next index, so a released address is never
  handed out again. Reading or releasing through a pointer whose cell is missing, or holds
  an object of another type than the pointer's, is undefined behaviour of the C program
  and the error \<open>Undefined\<close> of the model.

  \<open>malloc\<close>, \<open>strdup\<close> and \<open>realloc\<close> may fail. The state carries the number of
  allocations that will still succeed (\<open>budget\<close>); at zero every allocation returns
  \<open>NULL\<close>. \<open>exit(1)\<close> is the error \<open>Exit1\<close>, carrying the diagnostic written to the
  standard error stream. The standard output stream is the field \<open>out\<close>.
\<close>

type_synonym addr = nat
type_synonym ptr = "addr option"

record Slot =
  name :: ptr
  target :: ptr

record Concept =
  id_c :: ptr
  types :: ptr
  slots :: ptr
  slot_count :: int
  slot_capacity :: int

text \<open>
  An element of a slot array is \<open>None\<close> while it is uninitialised (fresh from
  \<open>realloc\<close>). \<open>Raw\<close> is a block fresh from \<open>malloc\<close>.
\<close>

datatype obj = Str string | Arr "Slot option list" | Conc Concept | Raw

datatype error = Exit1 string | Undefined

record state =
  cells :: "obj option list"
  budget :: nat
  out :: string

definition INT_MAX :: int where
  "INT_MAX = 2147483647"

definition INT_MIN :: int where
  "INT_MIN = - 2147483648"

definition deref :: "state \<Rightarrow> ptr \<Rightarrow> obj option" where
  "deref s p =
     (case p of
        None \<Rightarrow> None
      | Some a \<Rightarrow> if a < length (cells s) then cells s ! a else None)"

definition str_at :: "state \<Rightarrow> ptr \<Rightarrow> string option" where
  "str_at s p = (case deref s p of Some (Str x) \<Rightarrow> Some x | _ \<Rightarrow> None)"

definition arr_at :: "state \<Rightarrow> ptr \<Rightarrow> Slot option list option" where
  "arr_at s p = (case deref s p of Some (Arr xs) \<Rightarrow> Some xs | _ \<Rightarrow> None)"

definition conc_at :: "state \<Rightarrow> ptr \<Rightarrow> Concept option" where
  "conc_at s p = (case deref s p of Some (Conc C) \<Rightarrow> Some C | _ \<Rightarrow> None)"

definition store :: "addr \<Rightarrow> obj option \<Rightarrow> state \<Rightarrow> state" where
  "store a v s = s\<lparr>cells := (cells s)[a := v]\<rparr>"

definition malloc :: "obj \<Rightarrow> state \<Rightarrow> ptr \<times> state" where
  "malloc ob s =
     (if budget s = 0 then (None, s)
      else (Some (length (cells s)),
            s\<lparr>cells := cells s @ [Some ob], budget := budget s - 1\<rparr>))"

text \<open>
  \<open>free(p)\<close>: nothing for \<open>NULL\<close>; otherwise the cell must be live and hold an object
  of the pointer's type (\<open>ok\<close>), and is released.
\<close>

definition free :: "(obj \<Rightarrow> bool) \<Rightarrow> ptr \<Rightarrow> state \<Rightarrow> error + state" where
  "free ok p s =
     (case p of
        None \<Rightarrow> Inr s
      | Some a \<Rightarrow>
          (case deref s p of
             None \<Rightarrow> Inl Undefined
           | Some ob \<Rightarrow> if ok ob then Inr (store a None s) else Inl Undefined))"

fun is_Str :: "obj \<Rightarrow> bool" where
  "is_Str (Str x) = True"
| "is_Str ob = False"

fun is_Arr :: "obj \<Rightarrow> bool" where
  "is_Arr (Arr xs) = True"
| "is_Arr ob = False"

fun is_Conc :: "obj \<Rightarrow> bool" where
  "is_Conc (Conc C) = True"
| "is_Conc ob = False"

text \<open>\<open>strdup(p)\<close>: \<open>p\<close> must point to a string; the copy is a new cell, or \<open>NULL\<close>.\<close>

definition strdup :: "ptr \<Rightarrow> state \<Rightarrow> error + (ptr \<times> state)" where
  "strdup p s =
     (case str_at s p of
        None \<Rightarrow> Inl Undefined
      | Some x \<Rightarrow> Inr (malloc (Str x) s))"

text \<open>
  \<open>realloc(p, n * sizeof(Slot))\<close> for an \<open>int\<close> element count \<open>n\<close>. The product is
  computed in \<open>size_t\<close>, where a negative \<open>n\<close> becomes a size no allocator grants: the
  call fails. On success the elements are moved to a new block, which keeps the first
  \<open>n\<close> of them and is uninitialised beyond, and the old block is released. On failure
  the old block stays as it is.
\<close>

definition realloc :: "ptr \<Rightarrow> int \<Rightarrow> state \<Rightarrow> error + (ptr \<times> state)" where
  "realloc p n s =
     (case p of
        None \<Rightarrow>
          if n < 0 then Inr (None, s)
          else Inr (malloc (Arr (replicate (nat n) None)) s)
      | Some a \<Rightarrow>
          (case arr_at s p of
             None \<Rightarrow> Inl Undefined
           | Some xs \<Rightarrow>
               if n < 0 then Inr (None, s)
               else
                 (case malloc (Arr (take (nat n) xs @ replicate (nat n - length xs) None)) s of
                    (None, s') \<Rightarrow> Inr (None, s')
                  | (Some b, s') \<Rightarrow> Inr (Some b, store a None s'))))"

section \<open>Formatted output\<close>

definition digit :: "nat \<Rightarrow> char" where
  "digit n = ''0123456789'' ! n"

function show_nat :: "nat \<Rightarrow> string" where
  "show_nat n = (if n < 10 then [digit n] else show_nat (n div 10) @ [digit (n mod 10)])"
  by pat_completeness auto
termination
  by (relation "measure (\<lambda>n. n)") auto

declare show_nat.simps [simp del]

text \<open>The conversion \<open>%d\<close> of \<open>printf\<close>.\<close>

definition show_int :: "int \<Rightarrow> string" where
  "show_int i = (if i < 0 then CHR ''-'' # show_nat (nat (- i)) else show_nat (nat i))"

definition nl :: string where
  "nl = [CHR 0x0A]"

definition tab :: string where
  "tab = [CHR 0x09]"

definition printf :: "string \<Rightarrow> state \<Rightarrow> state" where
  "printf txt s = s\<lparr>out := out s @ txt\<rparr>"

section \<open>The operations of concept.c\<close>

text \<open>
  The source text has slips that a C compiler rejects: \<open>concept>slots[i].name\<close> and
  \<open>concept>slots[i].target.id\<close> in \<open>print_concept\<close>, \<open>concet->slot_capacity\<close> and
  \<open>size_of(Slot)\<close> in \<open>add_slot\<close>. The embedding reads them as what the surrounding
  lines use: \<open>concept->slots[i].name\<close>, \<open>concept->slots[i].target->id\<close>,
  \<open>concept->slot_capacity\<close> and \<open>sizeof(Slot)\<close>.
\<close>

text \<open>\<open>concept->slots[i]\<close> read as a value: in bounds and initialised, or undefined.\<close>

definition slot_at :: "state \<Rightarrow> Concept \<Rightarrow> int \<Rightarrow> Slot option" where
  "slot_at s C i =
     (case arr_at s (slots C) of
        None \<Rightarrow> None
      | Some xs \<Rightarrow> if 0 \<le> i \<and> i < int (length xs) then xs ! nat i else None)"

text \<open>
  The body of the loop of \<open>print_concept\<close> for the slot \<open>sl\<close> at index \<open>i\<close>. The
  source tests the target for \<open>NULL\<close> but not the name: a null pointer for \<open>%s\<close> is
  undefined.
\<close>

definition print_slot :: "Slot \<Rightarrow> int \<Rightarrow> state \<Rightarrow> error + state" where
  "print_slot sl i s =
     (let s1 = printf (tab @ ''#'' @ show_int (i + 1) @ nl) s in
      case str_at s1 (name sl) of
        None \<Rightarrow> Inl Undefined
      | Some nm \<Rightarrow>
          (let s2 = printf (tab @ tab @ ''Name: '' @ nm @ nl) s1 in
           case target sl of
             None \<Rightarrow> Inr (printf (tab @ tab @ ''Target: (null)'' @ nl) s2)
           | Some t \<Rightarrow>
               (case conc_at s2 (Some t) of
                  None \<Rightarrow> Inl Undefined
                | Some T \<Rightarrow>
                    (case str_at s2 (id_c T) of
                       None \<Rightarrow> Inl Undefined
                     | Some tid \<Rightarrow>
                         Inr (printf (tab @ tab @ ''Target: '' @ tid @ nl) s2)))))"

function print_loop :: "Concept \<Rightarrow> int \<Rightarrow> state \<Rightarrow> error + state" where
  "print_loop C i s =
     (if i < slot_count C then
        (case slot_at s C i of
           None \<Rightarrow> Inl Undefined
         | Some sl \<Rightarrow>
             (case print_slot sl i s of
                Inl e \<Rightarrow> Inl e
              | Inr s' \<Rightarrow> print_loop C (i + 1) s'))
      else Inr s)"
  by pat_completeness auto
termination
  by (relation "measure (\<lambda>(C, i, s). nat (slot_count C - i))") auto

declare print_loop.simps [simp del]

definition print_concept :: "ptr \<Rightarrow> state \<Rightarrow> error + state" where
  "print_concept concept s =
     (if concept = None then Inr s
      else
        (case conc_at s concept of
           None \<Rightarrow> Inl Undefined
         | Some C \<Rightarrow>
             (case str_at s (id_c C) of
                None \<Rightarrow> Inl Undefined
              | Some i \<Rightarrow>
                  (case str_at s (types C) of
                     None \<Rightarrow> Inl Undefined
                   | Some t \<Rightarrow>
                       print_loop C 0
                         (printf (''Slots (# of slots = '' @ show_int (slot_count C) @ ''):'' @ nl)
                           (printf (''Types: '' @ t @ nl)
                             (printf (''ID: '' @ i @ nl) s)))))))"

text \<open>
  Step 1 of \<open>add_slot\<close>. \<open>slot_capacity * 2\<close> is a signed multiplication: outside the
  range of \<open>int\<close> it is undefined. The concept \<open>C\<close> is the one stored at \<open>c\<close>.
\<close>

definition new_capacity :: "int \<Rightarrow> error + int" where
  "new_capacity cap =
     (if cap = 0 then Inr 2
      else if cap * 2 < INT_MIN \<or> INT_MAX < cap * 2 then Inl Undefined
      else Inr (cap * 2))"

definition resize :: "addr \<Rightarrow> Concept \<Rightarrow> state \<Rightarrow> error + state" where
  "resize c C s =
     (if slot_count C \<ge> slot_capacity C then
        (case new_capacity (slot_capacity C) of
           Inl e \<Rightarrow> Inl e
         | Inr n \<Rightarrow>
             (case realloc (slots C) n s of
                Inl e \<Rightarrow> Inl e
              | Inr (None, s') \<Rightarrow> Inl (Exit1 (''Failed to allocate memory for slots.'' @ nl))
              | Inr (Some a, s') \<Rightarrow>
                  Inr (store c (Some (Conc (C\<lparr>slots := Some a, slot_capacity := n\<rparr>))) s')))
      else Inr s)"

text \<open>
  Steps 2 and 3 of \<open>add_slot\<close>: the slot at index \<open>slot_count\<close> gets the copy of the
  name, whose allocation the source does not check, and the target; then the count goes
  up by one (undefined beyond \<open>INT_MAX\<close>).
\<close>

definition commit :: "addr \<Rightarrow> ptr \<Rightarrow> ptr \<Rightarrow> state \<Rightarrow> error + state" where
  "commit c slot_name tgt s =
     (case conc_at s (Some c) of
        None \<Rightarrow> Inl Undefined
      | Some C \<Rightarrow>
          (case slots C of
             None \<Rightarrow> Inl Undefined
           | Some a \<Rightarrow>
               (case arr_at s (Some a) of
                  None \<Rightarrow> Inl Undefined
                | Some xs \<Rightarrow>
                    if slot_count C < 0 \<or> int (length xs) \<le> slot_count C then Inl Undefined
                    else
                      (case strdup slot_name s of
                         Inl e \<Rightarrow> Inl e
                       | Inr (nm, s') \<Rightarrow>
                           if slot_count C = INT_MAX then Inl Undefined
                           else
                             Inr (store c (Some (Conc (C\<lparr>slot_count := slot_count C + 1\<rparr>)))
                                   (store a
                                      (Some (Arr (xs[nat (slot_count C) :=
                                                      Some \<lparr>name = nm, target = tgt\<rparr>])))
                                      s'))))))"

definition add_slot :: "ptr \<Rightarrow> ptr \<Rightarrow> ptr \<Rightarrow> state \<Rightarrow> error + state" where
  "add_slot concept slot_name tgt s =
     (case concept of
        None \<Rightarrow> Inr s
      | Some c \<Rightarrow>
          if slot_name = None \<or> tgt = None then Inr s
          else
            (case conc_at s concept of
               None \<Rightarrow> Inl Undefined
             | Some C \<Rightarrow>
                 (case resize c C s of
                    Inl e \<Rightarrow> Inl e
                  | Inr s' \<Rightarrow> commit c slot_name tgt s')))"

text \<open>
  \<open>create_concept\<close>. Its failure branch releases what it had allocated and exits; as
  the process ends there, the model keeps the diagnostic only.
\<close>

definition create_concept :: "ptr \<Rightarrow> ptr \<Rightarrow> state \<Rightarrow> error + (ptr \<times> state)" where
  "create_concept id_arg type_arg s =
     (case malloc Raw s of
        (None, s0) \<Rightarrow> Inl (Exit1 (''Failed to allocate memory for Concept.'' @ nl))
      | (Some c, s0) \<Rightarrow>
          (case strdup id_arg s0 of
             Inl e \<Rightarrow> Inl e
           | Inr (i, s1) \<Rightarrow>
               (case strdup type_arg s1 of
                  Inl e \<Rightarrow> Inl e
                | Inr (t, s2) \<Rightarrow>
                    if i = None \<or> t = None
                    then Inl (Exit1 (''Failed to allocate memory for Concept strings.'' @ nl))
                    else
                      Inr (Some c,
                           store c
                             (Some (Conc \<lparr>id_c = i, types = t, slots = None,
                                          slot_count = 0, slot_capacity = 0\<rparr>))
                             s2))))"

text \<open>The loop of \<open>free_concept\<close> over the slot names.\<close>

function free_names :: "Concept \<Rightarrow> int \<Rightarrow> state \<Rightarrow> error + state" where
  "free_names C i s =
     (if i < slot_count C then
        (case slot_at s C i of
           None \<Rightarrow> Inl Undefined
         | Some sl \<Rightarrow>
             (case free is_Str (name sl) s of
                Inl e \<Rightarrow> Inl e
              | Inr s' \<Rightarrow> free_names C (i + 1) s'))
      else Inr s)"
  by pat_completeness auto
termination
  by (relation "measure (\<lambda>(C, i, s). nat (slot_count C - i))") auto

declare free_names.simps [simp del]

text \<open>
  \<open>free_concept\<close>. The strings it releases are string cells, so the concept and its
  slot array are still in place when the later lines read them: the record read on entry
  is the one those lines see.
\<close>

definition free_concept :: "ptr \<Rightarrow> state \<Rightarrow> error + state" where
  "free_concept concept s =
     (if concept = None then Inr s
      else
        (case conc_at s concept of
           None \<Rightarrow> Inl Undefined
         | Some C \<Rightarrow>
             (case free is_Str (id_c C) s of
                Inl e \<Rightarrow> Inl e
              | Inr s1 \<Rightarrow>
                  (case free is_Str (types C) s1 of
                     Inl e \<Rightarrow> Inl e
                   | Inr s2 \<Rightarrow>
                       (case free_names C 0 s2 of
                          Inl e \<Rightarrow> Inl e
                        | Inr s3 \<Rightarrow>
                            (case free is_Arr (slots C) s3 of
                               Inl e \<Rightarrow> Inl e
                             | Inr s4 \<Rightarrow> free is_Conc concept s4))))))"

section \<open>The driver of main.c\<close>

text \<open>
  The string literals of \<open>main\<close> are static storage: the cells 0 to 4 of its initial
  state. The parameter \<open>b\<close> is the number of allocations the environment grants the
  run. \<open>main\<close> returns 0.
\<close>

definition main_init :: "nat \<Rightarrow> state" where
  "main_init b =
     \<lparr>cells = [Some (Str ''john''), Some (Str ''Person''), Some (Str ''book''),
               Some (Str ''Object''), Some (Str ''owns'')],
      budget = b, out = []\<rparr>"

definition main :: "nat \<Rightarrow> error + (int \<times> state)" where
  "main b =
     (case create_concept (Some 0) (Some 1) (main_init b) of
        Inl e \<Rightarrow> Inl e
      | Inr (john, s1) \<Rightarrow>
          (case create_concept (Some 2) (Some 3) s1 of
             Inl e \<Rightarrow> Inl e
           | Inr (book, s2) \<Rightarrow>
               (case add_slot john (Some 4) book s2 of
                  Inl e \<Rightarrow> Inl e
                | Inr s3 \<Rightarrow>
                    (case print_concept john s3 of
                       Inl e \<Rightarrow> Inl e
                     | Inr s4 \<Rightarrow> Inr (0, s4)))))"

text \<open>The text the specification gives for the run of \<open>main\<close>.\<close>

definition demo_text :: string where
  "demo_text =
     ''ID: john'' @ nl @
     ''Types: Person'' @ nl @
     ''Slots (# of slots = 1):'' @ nl @
     tab @ ''#1'' @ nl @
     tab @ tab @ ''Name: owns'' @ nl @
     tab @ tab @ ''Target: book'' @ nl"

text \<open>
  The heap of \<open>main 8\<close> when it calls \<open>print_concept\<close>, written out: john is the
  concept at 5, book the concept at 8.
\<close>

definition demo_state :: state where
  "demo_state =
     \<lparr>cells =
        [Some (Str ''john''), Some (Str ''Person''), Some (Str ''book''),
         Some (Str ''Object''), Some (Str ''owns''),
         Some (Conc \<lparr>id_c = Some 6, types = Some 7, slots = Some 11,
                      slot_count = 1, slot_capacity = 2\<rparr>),
         Some (Str ''john''), Some (Str ''Person''),
         Some (Conc \<lparr>id_c = Some 9, types = Some 10, slots = None,
                      slot_count = 0, slot_capacity = 0\<rparr>),
         Some (Str ''book''), Some (Str ''Object''),
         Some (Arr [Some \<lparr>name = Some 12, target = Some 8\<rparr>, None]),
         Some (Str ''owns'')],
      budget = 0, out = []\<rparr>"

text \<open>
  Three more heaps a caller can build with the operations, written out. In
  \<open>self_loop_state\<close> john, the concept at 5, has one slot whose target is john
  itself; \<open>self_loop_freed\<close> is that heap after john's teardown. In \<open>tight_state\<close>
  john (at 5) and book (at 8) are constructed and one allocation is left;
  \<open>tight_added\<close> is that heap after \<open>add_slot(john, "owns", book)\<close>.
\<close>

definition self_loop_state :: state where
  "self_loop_state =
     \<lparr>cells =
        [Some (Str ''john''), Some (Str ''Person''), Some (Str ''book''),
         Some (Str ''Object''), Some (Str ''owns''),
         Some (Conc \<lparr>id_c = Some 6, types = Some 7, slots = Some 8,
                      slot_count = 1, slot_capacity = 2\<rparr>),
         Some (Str ''john''), Some (Str ''Person''),
         Some (Arr [Some \<lparr>name = Some 9, target = Some 5\<rparr>, None]),
         Some (Str ''owns'')],
      budget = 0, out = []\<rparr>"

definition self_loop_freed :: state where
  "self_loop_freed =
     \<lparr>cells =
        [Some (Str ''john''), Some (Str ''Person''), Some (Str ''book''),
         Some (Str ''Object''), Some (Str ''owns''),
         None, None, None, None, None],
      budget = 0, out = []\<rparr>"

definition tight_state :: state where
  "tight_state =
     \<lparr>cells =
        [Some (Str ''john''), Some (Str ''Person''), Some (Str ''book''),
         Some (Str ''Object''), Some (Str ''owns''),
         Some (Conc \<lparr>id_c = Some 6, types = Some 7, slots = None,
                      slot_count = 0, slot_capacity = 0\<rparr>),
         Some (Str ''john''), Some (Str ''Person''),
         Some (Conc \<lparr>id_c = Some 9, types = Some 10, slots = None,
                      slot_count = 0, slot_capacity = 0\<rparr>),
         Some (Str ''book''), Some (Str ''Object'')],
      budget = 1, out = []\<rparr>"

definition tight_added :: state where
  "tight_added =
     \<lparr>cells =
        [Some (Str ''john''), Some (Str ''Person''), Some (Str ''book''),
         Some (Str ''Object''), Some (Str ''owns''),
         Some (Conc \<lparr>id_c = Some 6, types = Some 7, slots = Some 11,
                      slot_count = 1, slot_capacity = 2\<rparr>),
         Some (Str ''john''), Some (Str ''Person''),
         Some (Conc \<lparr>id_c = Some 9, types = Some 10, slots = None,
                      slot_count = 0, slot_capacity = 0\<rparr>),
         Some (Str ''book''), Some (Str ''Object''),
         Some (Arr [Some \<lparr>name = None, target = Some 8\<rparr>, None])],
      budget = 0, out = []\<rparr>"

section \<open>Sequences of calls, views and the invariant\<close>

text \<open>
  A caller's sequence of appends to one concept, each with its name and target. It stops
  at the first call that does not return.
\<close>

fun add_slots :: "ptr \<Rightarrow> (ptr \<times> ptr) list \<Rightarrow> state \<Rightarrow> error + state" where
  "add_slots concept [] s = Inr s"
| "add_slots concept ((slot_name, tgt) # calls) s =
     (case add_slot concept slot_name tgt s of
        Inl e \<Rightarrow> Inl e
      | Inr s' \<Rightarrow> add_slots concept calls s')"

text \<open>
  The life of a heap: any sequence of calls of the four operations, by any caller, with
  any arguments. A run stops at the first call that does not return.
\<close>

datatype call = Construct ptr ptr | Append ptr ptr ptr | Render ptr | Teardown ptr

fun step :: "call \<Rightarrow> state \<Rightarrow> error + state" where
  "step (Construct id_arg type_arg) s = map_sum (\<lambda>e. e) snd (create_concept id_arg type_arg s)"
| "step (Append concept slot_name tgt) s = add_slot concept slot_name tgt s"
| "step (Render concept) s = print_concept concept s"
| "step (Teardown concept) s = free_concept concept s"

fun run :: "call list \<Rightarrow> state \<Rightarrow> error + state" where
  "run [] s = Inr s"
| "run (c # cs) s = (case step c s of Inl e \<Rightarrow> Inl e | Inr s' \<Rightarrow> run cs s')"

text \<open>A call whose name and target are both present.\<close>

definition present_call :: "ptr \<times> ptr \<Rightarrow> bool" where
  "present_call call = (fst call \<noteq> None \<and> snd call \<noteq> None)"

text \<open>
  The growth rule in the specification's words: the capacity after \<open>n\<close> appends to a
  new concept, where an append grows the storage to \<open>max(2, capacity * 2)\<close> if the
  current count equals the current capacity.
\<close>

fun spec_capacity :: "nat \<Rightarrow> int" where
  "spec_capacity 0 = 0"
| "spec_capacity (Suc n) =
     (if int n = spec_capacity n then max 2 (spec_capacity n * 2) else spec_capacity n)"

text \<open>The invariant of the data model, for one concept and for every concept of a heap.\<close>

definition count_le_capacity :: "Concept \<Rightarrow> bool" where
  "count_le_capacity C = (slot_count C \<le> slot_capacity C)"

definition live_inv :: "state \<Rightarrow> bool" where
  "live_inv s =
     list_all (\<lambda>cell. case cell of Some (Conc C) \<Rightarrow> count_le_capacity C | _ \<Rightarrow> True)
       (cells s)"

text \<open>
  The pointers to the storage a concept owns besides its own record: its id, its type,
  its slot array and the name of each populated slot.
\<close>

definition slot_names :: "state \<Rightarrow> Concept \<Rightarrow> ptr list" where
  "slot_names s C =
     map (\<lambda>i. case slot_at s C (int i) of None \<Rightarrow> None | Some sl \<Rightarrow> name sl)
       [0..<nat (slot_count C)]"

definition owned :: "state \<Rightarrow> Concept \<Rightarrow> ptr list" where
  "owned s C = id_c C # types C # slots C # slot_names s C"

text \<open>
  A concept whose count lies between 0 and its capacity and whose slot array, if it has
  one, has as many elements as the capacity says; with no array the capacity is 0.
\<close>

definition well_formed :: "state \<Rightarrow> Concept \<Rightarrow> bool" where
  "well_formed s C =
     (0 \<le> slot_count C \<and> slot_count C \<le> slot_capacity C \<and>
      (case slots C of
         None \<Rightarrow> slot_capacity C = 0
       | Some a \<Rightarrow>
           (case arr_at s (Some a) of
              None \<Rightarrow> False
            | Some xs \<Rightarrow> int (length xs) = slot_capacity C)))"

text \<open>
  The pointers \<open>print_concept\<close> dereferences: for a slot its name, its target and
  the target's id; for a concept the concept, its id, its type, its slot array and what
  its populated slots read.
\<close>

definition slot_reads :: "state \<Rightarrow> Slot \<Rightarrow> ptr list" where
  "slot_reads s sl =
     name sl # target sl #
       (case conc_at s (target sl) of None \<Rightarrow> [] | Some T \<Rightarrow> [id_c T])"

definition print_reads :: "state \<Rightarrow> ptr \<Rightarrow> ptr list" where
  "print_reads s concept =
     concept #
       (case conc_at s concept of
          None \<Rightarrow> []
        | Some C \<Rightarrow>
            id_c C # types C # slots C #
              concat (map (\<lambda>i. case slot_at s C (int i) of
                                  None \<Rightarrow> []
                                | Some sl \<Rightarrow> slot_reads s sl)
                        [0..<nat (slot_count C)]))"

text \<open>
  The rendering format in the specification's words: the line of the id, the line of the
  type label, the line of the slot count, then for each slot in order its 1-based
  ordinal, its name, and its target's id or \<open>(null)\<close>, tab-indented.
\<close>

definition text_at :: "state \<Rightarrow> ptr \<Rightarrow> string" where
  "text_at s p = (case str_at s p of None \<Rightarrow> [] | Some x \<Rightarrow> x)"

definition render_slot :: "state \<Rightarrow> nat \<Rightarrow> Slot \<Rightarrow> string" where
  "render_slot s i sl =
     tab @ ''#'' @ show_int (int i + 1) @ nl @
     tab @ tab @ ''Name: '' @ text_at s (name sl) @ nl @
     tab @ tab @ ''Target: '' @
       (case target sl of
          None \<Rightarrow> ''(null)''
        | Some t \<Rightarrow>
            (case conc_at s (Some t) of None \<Rightarrow> [] | Some T \<Rightarrow> text_at s (id_c T))) @ nl"

definition render_slots :: "state \<Rightarrow> Concept \<Rightarrow> nat \<Rightarrow> string" where
  "render_slots s C k =
     concat (map (\<lambda>i. case slot_at s C (int i) of
                          None \<Rightarrow> []
                        | Some sl \<Rightarrow> render_slot s i sl)
               [k..<nat (slot_count C)])"

definition render_text :: "state \<Rightarrow> Concept \<Rightarrow> string" where
  "render_text s C =
     ''ID: '' @ text_at s (id_c C) @ nl @
     ''Types: '' @ text_at s (types C) @ nl @
     ''Slots (# of slots = '' @ show_int (slot_count C) @ ''):'' @ nl @
     render_slots s C 0"

section \<open>Basic facts about the store\<close>

lemma deref_None [simp]: "deref s None = None"
  by (simp add: deref_def)

lemma cells_printf [simp]: "cells (printf txt s) = cells s"
  and budget_printf [simp]: "budget (printf txt s) = budget s"
  and out_printf [simp]: "out (printf txt s) = out s @ txt"
  by (simp_all add: printf_def)

lemma deref_cells: "cells s' = cells s \<Longrightarrow> deref s' p = deref s p"
  by (cases p) (simp_all add: deref_def)

lemma store_fields [simp]:
  "cells (store a v s) = (cells s)[a := v]"
  "budget (store a v s) = budget s"
  "out (store a v s) = out s"
  by (simp_all add: store_def)

lemma deref_store:
  "deref (store a v s) p = (if p = Some a \<and> a < length (cells s) then v else deref s p)"
  by (cases p) (auto simp: deref_def)

lemma deref_live: "deref s (Some a) = Some ob \<Longrightarrow> a < length (cells s)"
  by (simp add: deref_def split: if_splits)

lemma deref_snoc:
  "cells s' = cells s @ [v] \<Longrightarrow>
   deref s' p = (if p = Some (length (cells s)) then v else deref s p)"
  by (cases p) (auto simp: deref_def nth_append)

lemma deref_fresh [simp]: "deref s (Some (length (cells s))) = None"
  by (simp add: deref_def)

lemma malloc_cases:
  assumes "malloc ob s = (p, s')"
  obtains (fail) "budget s = 0" "p = None" "s' = s"
  | (ok) "0 < budget s" "p = Some (length (cells s))" "cells s' = cells s @ [Some ob]"
      "budget s' = budget s - 1" "out s' = out s"
  using assms by (auto simp: malloc_def split: if_splits)

lemma malloc_ok:
  "0 < budget s \<Longrightarrow>
   malloc ob s = (Some (length (cells s)),
                  s\<lparr>cells := cells s @ [Some ob], budget := budget s - 1\<rparr>)"
  by (simp add: malloc_def)

lemma str_at_deref: "str_at s p = Some x \<longleftrightarrow> deref s p = Some (Str x)"
  by (auto simp: str_at_def split: option.splits obj.splits)

lemma arr_at_deref: "arr_at s p = Some xs \<longleftrightarrow> deref s p = Some (Arr xs)"
  by (auto simp: arr_at_def split: option.splits obj.splits)

lemma conc_at_deref: "conc_at s p = Some C \<longleftrightarrow> deref s p = Some (Conc C)"
  by (auto simp: conc_at_def split: option.splits obj.splits)

lemma strdup_cases:
  assumes "strdup p s = Inr (q, s')"
  obtains (fail) x where "str_at s p = Some x" "budget s = 0" "q = None" "s' = s"
  | (ok) x where "str_at s p = Some x" "0 < budget s" "q = Some (length (cells s))"
      "cells s' = cells s @ [Some (Str x)]" "budget s' = budget s - 1" "out s' = out s"
  using assms by (auto simp: strdup_def malloc_def split: option.splits if_splits)

lemma create_concept_ok:
  assumes i: "str_at s id_arg = Some i" and t: "str_at s type_arg = Some t"
    and b: "3 \<le> budget s"
  shows "create_concept id_arg type_arg s =
     Inr (Some (length (cells s)),
          s\<lparr>cells := cells s @
               [Some (Conc \<lparr>id_c = Some (length (cells s) + 1),
                             types = Some (length (cells s) + 2), slots = None,
                             slot_count = 0, slot_capacity = 0\<rparr>),
                Some (Str i), Some (Str t)],
            budget := budget s - 3\<rparr>)"
proof -
  from i have i': "deref s id_arg = Some (Str i)" by (simp add: str_at_deref)
  from t have t': "deref s type_arg = Some (Str t)" by (simp add: str_at_deref)
  obtain a where a: "id_arg = Some a" "a < length (cells s)"
    using i' by (cases id_arg) (auto dest: deref_live)
  obtain d where d: "type_arg = Some d" "d < length (cells s)"
    using t' by (cases type_arg) (auto dest: deref_live)
  show ?thesis
    using b i' t' a d
    by (simp add: create_concept_def malloc_def strdup_def str_at_def deref_def store_def
        nth_append)
qed

lemma create_concept_Inr:
  assumes "create_concept id_arg type_arg s = Inr (p, s')"
  shows "\<exists>i t. p = Some (length (cells s)) \<and> 3 \<le> budget s \<and>
           cells s' = cells s @
               [Some (Conc \<lparr>id_c = Some (length (cells s) + 1),
                             types = Some (length (cells s) + 2), slots = None,
                             slot_count = 0, slot_capacity = 0\<rparr>),
                Some (Str i), Some (Str t)] \<and>
           budget s' = budget s - 3 \<and> out s' = out s"
  using assms
  by (auto simp: create_concept_def malloc_def strdup_def str_at_def deref_def nth_append
      store_def split: if_splits option.splits obj.splits prod.splits sum.splits)

lemma new_capacity_Inr:
  "new_capacity cap = Inr n \<Longrightarrow>
   n = (if cap = 0 then 2 else cap * 2) \<and> INT_MIN \<le> n \<and> n \<le> INT_MAX"
  by (auto simp: new_capacity_def INT_MIN_def INT_MAX_def split: if_splits)

lemma realloc_cases:
  assumes "realloc p n s = Inr (q, s')"
  obtains (fail) "q = None" "s' = s"
  | (fresh) "p = None" "0 \<le> n" "0 < budget s" "q = Some (length (cells s))"
      "s' = s\<lparr>cells := cells s @ [Some (Arr (replicate (nat n) None))],
               budget := budget s - 1\<rparr>"
  | (move) a xs where "p = Some a" "arr_at s p = Some xs" "0 \<le> n" "0 < budget s"
      "q = Some (length (cells s))"
      "s' = store a None
              (s\<lparr>cells := cells s @
                   [Some (Arr (take (nat n) xs @ replicate (nat n - length xs) None))],
                 budget := budget s - 1\<rparr>)"
  using assms
  by (auto simp: realloc_def malloc_def split: option.splits if_splits prod.splits)

lemma deref_alloc:
  "deref (s\<lparr>cells := cells s @ [v], budget := b\<rparr>) p =
     (if p = Some (length (cells s)) then v else deref s p)"
  by (cases p) (auto simp: deref_def nth_append)

lemma length_store [simp]: "length (cells (store a v s)) = length (cells s)"
  by simp

text \<open>What a successful \<open>resize\<close> did, read through \<open>deref\<close>.\<close>

lemma resize_effect:
  assumes r: "resize c C s = Inr s1" and C: "conc_at s (Some c) = Some C"
  obtains (keep) "slot_count C < slot_capacity C" "s1 = s"
  | (grow) n ys where
      "slot_capacity C \<le> slot_count C"
      "n = (if slot_capacity C = 0 then 2 else slot_capacity C * 2)"
      "0 \<le> n" "n \<le> INT_MAX" "0 < budget s" "length ys = nat n"
      "slots C = None \<or> (\<exists>xs. arr_at s (slots C) = Some xs)"
      "\<And>xs i. arr_at s (slots C) = Some xs \<Longrightarrow> i < length xs \<Longrightarrow> i < nat n \<Longrightarrow> ys ! i = xs ! i"
      "\<And>i. arr_at s (slots C) = None \<Longrightarrow> i < nat n \<Longrightarrow> ys ! i = None"
      "\<And>xs i. arr_at s (slots C) = Some xs \<Longrightarrow> length xs \<le> i \<Longrightarrow> i < nat n \<Longrightarrow> ys ! i = None"
      "deref s1 (Some c) =
         Some (Conc (C\<lparr>slots := Some (length (cells s)), slot_capacity := n\<rparr>))"
      "deref s1 (Some (length (cells s))) = Some (Arr ys)"
      "slots C \<noteq> None \<Longrightarrow> deref s1 (slots C) = None"
      "\<And>p. p \<noteq> Some c \<Longrightarrow> p \<noteq> slots C \<Longrightarrow> p \<noteq> Some (length (cells s)) \<Longrightarrow>
         deref s1 p = deref s p"
      "length (cells s1) = length (cells s) + 1" "budget s1 = budget s - 1" "out s1 = out s"
proof (cases "slot_count C < slot_capacity C")
  case True
  with r have "s1 = s" by (simp add: resize_def)
  with True show ?thesis by (rule keep)
next
  case False
  from C have dc: "deref s (Some c) = Some (Conc C)" by (simp add: conc_at_deref)
  then have c_lt: "c < length (cells s)" by (rule deref_live)
  from False r obtain n q s0 where
    n: "new_capacity (slot_capacity C) = Inr n"
    and re: "realloc (slots C) n s = Inr (Some q, s0)"
    and s1: "s1 = store c (Some (Conc (C\<lparr>slots := Some q, slot_capacity := n\<rparr>))) s0"
    by (auto simp: resize_def split: sum.splits option.splits prod.splits)
  from new_capacity_Inr [OF n]
  have n_eq: "n = (if slot_capacity C = 0 then 2 else slot_capacity C * 2)"
    and n_max: "n \<le> INT_MAX" by auto
  from re show ?thesis
  proof (cases rule: realloc_cases)
    case fail
    then show ?thesis by simp
  next
    case fresh
    let ?ys = "replicate (nat n) (None :: Slot option)"
    have no_arr: "arr_at s (slots C) = None"
      using fresh by (simp add: arr_at_def)
    show ?thesis
    proof (rule grow [of n ?ys])
      show "slot_capacity C \<le> slot_count C" using False by simp
      show "n = (if slot_capacity C = 0 then 2 else slot_capacity C * 2)" by (rule n_eq)
      show "0 \<le> n" "n \<le> INT_MAX" "0 < budget s" using fresh n_max by auto
      show "length ?ys = nat n" by simp
      show "slots C = None \<or> (\<exists>xs. arr_at s (slots C) = Some xs)" using fresh by simp
      show "\<And>xs i. arr_at s (slots C) = Some xs \<Longrightarrow> i < length xs \<Longrightarrow> i < nat n \<Longrightarrow> ?ys ! i = xs ! i"
        using no_arr by simp
      show "\<And>i. arr_at s (slots C) = None \<Longrightarrow> i < nat n \<Longrightarrow> ?ys ! i = None" by simp
      show "\<And>xs i. arr_at s (slots C) = Some xs \<Longrightarrow> length xs \<le> i \<Longrightarrow> i < nat n \<Longrightarrow> ?ys ! i = None"
        by simp
      show "deref s1 (Some c) =
         Some (Conc (C\<lparr>slots := Some (length (cells s)), slot_capacity := n\<rparr>))"
        using s1 fresh c_lt by (simp add: deref_store)
      show "deref s1 (Some (length (cells s))) = Some (Arr ?ys)"
        using s1 fresh c_lt by (simp add: deref_store deref_alloc)
      show "slots C \<noteq> None \<Longrightarrow> deref s1 (slots C) = None" using fresh by simp
      show "\<And>p. p \<noteq> Some c \<Longrightarrow> p \<noteq> slots C \<Longrightarrow> p \<noteq> Some (length (cells s)) \<Longrightarrow>
         deref s1 p = deref s p"
        using s1 fresh by (simp add: deref_store deref_alloc)
      show "length (cells s1) = length (cells s) + 1" "budget s1 = budget s - 1" "out s1 = out s"
        using s1 fresh by simp_all
    qed
  next
    case (move a xs)
    let ?ys = "take (nat n) xs @ replicate (nat n - length xs) None"
    from move have da: "deref s (Some a) = Some (Arr xs)" by (simp add: arr_at_deref)
    then have a_lt: "a < length (cells s)" by (rule deref_live)
    from da dc have ac: "a \<noteq> c" by auto
    show ?thesis
    proof (rule grow [of n ?ys])
      show "slot_capacity C \<le> slot_count C" using False by simp
      show "n = (if slot_capacity C = 0 then 2 else slot_capacity C * 2)" by (rule n_eq)
      show "0 \<le> n" "n \<le> INT_MAX" "0 < budget s" using move n_max by auto
      show "length ?ys = nat n" by simp
      show "slots C = None \<or> (\<exists>xs. arr_at s (slots C) = Some xs)" using move by simp
      show "\<And>zs i. arr_at s (slots C) = Some zs \<Longrightarrow> i < length zs \<Longrightarrow> i < nat n \<Longrightarrow> ?ys ! i = zs ! i"
        using move by (simp add: nth_append)
      show "\<And>i. arr_at s (slots C) = None \<Longrightarrow> i < nat n \<Longrightarrow> ?ys ! i = None"
        using move by simp
      show "\<And>zs i. arr_at s (slots C) = Some zs \<Longrightarrow> length zs \<le> i \<Longrightarrow> i < nat n \<Longrightarrow> ?ys ! i = None"
        using move by (simp add: nth_append)
      show "deref s1 (Some c) =
         Some (Conc (C\<lparr>slots := Some (length (cells s)), slot_capacity := n\<rparr>))"
        using s1 move c_lt by (simp add: deref_store)
      show "deref s1 (Some (length (cells s))) = Some (Arr ?ys)"
        using s1 move c_lt a_lt by (simp add: deref_store deref_alloc)
      show "slots C \<noteq> None \<Longrightarrow> deref s1 (slots C) = None"
        using s1 move c_lt a_lt ac by (simp add: deref_store deref_alloc)
      show "\<And>p. p \<noteq> Some c \<Longrightarrow> p \<noteq> slots C \<Longrightarrow> p \<noteq> Some (length (cells s)) \<Longrightarrow>
         deref s1 p = deref s p"
        using s1 move by (simp add: deref_store deref_alloc)
      show "length (cells s1) = length (cells s) + 1" "budget s1 = budget s - 1" "out s1 = out s"
        using s1 move by simp_all
    qed
  qed
qed

text \<open>What a successful \<open>commit\<close> did.\<close>

lemma commit_effect:
  assumes r: "commit c np t s = Inr s'"
  obtains (committed) C a xs nm x where
    "conc_at s (Some c) = Some C" "slots C = Some a" "arr_at s (Some a) = Some xs"
    "0 \<le> slot_count C" "slot_count C < int (length xs)" "slot_count C \<noteq> INT_MAX"
    "str_at s np = Some x"
    "deref s' (Some c) = Some (Conc (C\<lparr>slot_count := slot_count C + 1\<rparr>))"
    "deref s' (Some a) =
       Some (Arr (xs[nat (slot_count C) := Some \<lparr>name = nm, target = t\<rparr>]))"
    "\<And>p. p \<noteq> Some c \<Longrightarrow> p \<noteq> Some a \<Longrightarrow> p \<noteq> Some (length (cells s)) \<Longrightarrow>
       deref s' p = deref s p"
    "nm = None \<and> budget s = 0 \<and> length (cells s') = length (cells s) \<and>
       budget s' = budget s
     \<or> nm = Some (length (cells s)) \<and> 0 < budget s \<and> deref s' nm = Some (Str x) \<and>
       length (cells s') = length (cells s) + 1 \<and> budget s' = budget s - 1"
    "out s' = out s"
proof -
  from r obtain C a xs nm s2 where
    C: "conc_at s (Some c) = Some C" and a: "slots C = Some a"
    and xs: "arr_at s (Some a) = Some xs"
    and lo: "0 \<le> slot_count C" and hi: "slot_count C < int (length xs)"
    and sd: "strdup np s = Inr (nm, s2)" and mx: "slot_count C \<noteq> INT_MAX"
    and s': "s' = store c (Some (Conc (C\<lparr>slot_count := slot_count C + 1\<rparr>)))
               (store a (Some (Arr (xs[nat (slot_count C) :=
                   Some \<lparr>name = nm, target = t\<rparr>]))) s2)"
    by (auto simp: commit_def split: option.splits sum.splits if_splits prod.splits)
  from C have dc: "deref s (Some c) = Some (Conc C)" by (simp add: conc_at_deref)
  then have c_lt: "c < length (cells s)" by (rule deref_live)
  from xs have da: "deref s (Some a) = Some (Arr xs)" by (simp add: arr_at_deref)
  then have a_lt: "a < length (cells s)" by (rule deref_live)
  from da dc have ac: "a \<noteq> c" by auto
  from sd show ?thesis
  proof (cases rule: strdup_cases)
    case (fail x)
    show ?thesis
    proof (rule that [of C a xs x nm])
      show "deref s' (Some c) = Some (Conc (C\<lparr>slot_count := slot_count C + 1\<rparr>))"
        using s' fail c_lt by (simp add: deref_store)
      show "deref s' (Some a) =
         Some (Arr (xs[nat (slot_count C) := Some \<lparr>name = nm, target = t\<rparr>]))"
        using s' fail c_lt a_lt ac by (simp add: deref_store)
      show "\<And>p. p \<noteq> Some c \<Longrightarrow> p \<noteq> Some a \<Longrightarrow> p \<noteq> Some (length (cells s)) \<Longrightarrow>
         deref s' p = deref s p"
        using s' fail by (simp add: deref_store)
      show "nm = None \<and> budget s = 0 \<and> length (cells s') = length (cells s) \<and>
         budget s' = budget s
       \<or> nm = Some (length (cells s)) \<and> 0 < budget s \<and> deref s' nm = Some (Str x) \<and>
         length (cells s') = length (cells s) + 1 \<and> budget s' = budget s - 1"
        using s' fail by simp
      show "out s' = out s" using s' fail by simp
    qed (use C a xs lo hi mx fail in auto)
  next
    case (ok x)
    have d2: "\<And>p. deref s2 p = (if p = Some (length (cells s)) then Some (Str x) else deref s p)"
      using ok by (simp add: deref_snoc)
    have l2: "length (cells s2) = length (cells s) + 1" using ok by simp
    show ?thesis
    proof (rule that [of C a xs x nm])
      show "deref s' (Some c) = Some (Conc (C\<lparr>slot_count := slot_count C + 1\<rparr>))"
        using s' c_lt l2 by (simp add: deref_store)
      show "deref s' (Some a) =
         Some (Arr (xs[nat (slot_count C) := Some \<lparr>name = nm, target = t\<rparr>]))"
        using s' c_lt a_lt ac l2 by (simp add: deref_store)
      show "\<And>p. p \<noteq> Some c \<Longrightarrow> p \<noteq> Some a \<Longrightarrow> p \<noteq> Some (length (cells s)) \<Longrightarrow>
         deref s' p = deref s p"
        using s' d2 by (simp add: deref_store)
      show "nm = None \<and> budget s = 0 \<and> length (cells s') = length (cells s) \<and>
         budget s' = budget s
       \<or> nm = Some (length (cells s)) \<and> 0 < budget s \<and> deref s' nm = Some (Str x) \<and>
         length (cells s') = length (cells s) + 1 \<and> budget s' = budget s - 1"
        using s' ok d2 l2 c_lt a_lt by (simp add: deref_store)
      show "out s' = out s" using s' ok by simp
    qed (use C a xs lo hi mx ok in auto)
  qed
qed

lemma slot_at_eq:
  "arr_at s (slots C) = Some xs \<Longrightarrow>
   slot_at s C i = (if 0 \<le> i \<and> i < int (length xs) then xs ! nat i else None)"
  by (simp add: slot_at_def)

lemma slot_at_no_arr: "arr_at s (slots C) = None \<Longrightarrow> slot_at s C i = None"
  by (simp add: slot_at_def)

text \<open>What a successful \<open>add_slot\<close> with three present arguments did.\<close>

lemma add_slot_effect:
  assumes r: "add_slot (Some c) (Some np) (Some t) s = Inr s'"
  obtains C C' nm x where
    "conc_at s (Some c) = Some C"
    "conc_at s' (Some c) = Some C'"
    "id_c C' = id_c C" "types C' = types C"
    "slot_count C' = slot_count C + 1"
    "slot_capacity C' =
       (if slot_capacity C \<le> slot_count C
        then (if slot_capacity C = 0 then 2 else slot_capacity C * 2)
        else slot_capacity C)"
    "0 \<le> slot_count C" "slot_count C' \<le> slot_capacity C'"
    "str_at s (Some np) = Some x"
    "slot_at s' C' (slot_count C) = Some \<lparr>name = nm, target = Some t\<rparr>"
    "nm = None \<and> budget s' = 0 \<or>
     (\<exists>b. nm = Some b \<and> length (cells s) \<le> b \<and> str_at s' nm = Some x)"
    "\<And>i. 0 \<le> i \<Longrightarrow> i < slot_count C \<Longrightarrow> slot_at s' C' i = slot_at s C i"
    "\<And>a. a < length (cells s) \<Longrightarrow> a \<noteq> c \<Longrightarrow> Some a \<noteq> slots C \<Longrightarrow>
       deref s' (Some a) = deref s (Some a)"
    "length (cells s) \<le> length (cells s')" "out s' = out s" "budget s' \<le> budget s"
    "\<And>q. q \<noteq> Some c \<Longrightarrow> conc_at s' q = conc_at s q"
    "\<And>p y. str_at s p = Some y \<Longrightarrow> str_at s' p = Some y"
    "\<And>p zs. p \<noteq> slots C \<Longrightarrow> arr_at s p = Some zs \<Longrightarrow> arr_at s' p = Some zs"
proof -
  from r obtain C s1 where
    C: "conc_at s (Some c) = Some C" and rs: "resize c C s = Inr s1"
    and cm: "commit c (Some np) (Some t) s1 = Inr s'"
    by (auto simp: add_slot_def split: option.splits sum.splits)
  from C have dc: "deref s (Some c) = Some (Conc C)" by (simp add: conc_at_deref)
  then have c_lt: "c < length (cells s)" by (rule deref_live)
  from cm show ?thesis
  proof (cases rule: commit_effect)
  case (committed C1 a xs nm x)
  note C1 = committed(1) and a = committed(2) and xs = committed(3) and lo = committed(4)
    and hi = committed(5) and x = committed(7) and dc' = committed(8) and da' = committed(9)
    and fr = committed(10) and nm = committed(11) and o = committed(12)
  let ?C' = "C1\<lparr>slot_count := slot_count C1 + 1\<rparr>"
  have C': "conc_at s' (Some c) = Some ?C'" using dc' by (simp add: conc_at_deref)
  have arr': "arr_at s' (slots ?C') =
      Some (xs[nat (slot_count C1) := Some \<lparr>name = nm, target = Some t\<rparr>])"
    using da' a by (simp add: arr_at_deref)
  have new_slot: "slot_at s' ?C' (slot_count C1) = Some \<lparr>name = nm, target = Some t\<rparr>"
    using lo hi by (simp add: slot_at_eq [OF arr'])
  have old_slot: "\<And>i. 0 \<le> i \<Longrightarrow> i < slot_count C1 \<Longrightarrow>
      slot_at s' ?C' i = (if i < int (length xs) then xs ! nat i else None)"
    using lo hi by (simp add: slot_at_eq [OF arr'])
  have x1: "deref s1 (Some np) = Some (Str x)" using x by (simp add: str_at_deref)
  from rs C show ?thesis
  proof (cases rule: resize_effect)
    case keep
    from keep C C1 have CC: "C1 = C" by simp
    have xs0: "arr_at s (slots C) = Some xs" using xs a keep CC by simp
    have da0: "deref s (Some a) = Some (Arr xs)" using xs keep by (simp add: arr_at_deref)
    show ?thesis
    proof (rule that [of C ?C' x nm])
      show "conc_at s (Some c) = Some C" by (rule C)
      show "conc_at s' (Some c) = Some ?C'" by (rule C')
      show "id_c ?C' = id_c C" "types ?C' = types C" "slot_count ?C' = slot_count C + 1"
        using CC by simp_all
      show "slot_capacity ?C' =
         (if slot_capacity C \<le> slot_count C
          then (if slot_capacity C = 0 then 2 else slot_capacity C * 2)
          else slot_capacity C)"
        using keep CC by simp
      show "0 \<le> slot_count C" using lo CC by simp
      show "slot_count ?C' \<le> slot_capacity ?C'" using keep CC by simp
      show "str_at s (Some np) = Some x" using x keep by simp
      show "slot_at s' ?C' (slot_count C) = Some \<lparr>name = nm, target = Some t\<rparr>"
        using new_slot CC by simp
      show "nm = None \<and> budget s' = 0 \<or>
         (\<exists>b. nm = Some b \<and> length (cells s) \<le> b \<and> str_at s' nm = Some x)"
        using nm keep by (auto simp: str_at_deref)
      show "\<And>i. 0 \<le> i \<Longrightarrow> i < slot_count C \<Longrightarrow> slot_at s' ?C' i = slot_at s C i"
        using old_slot CC by (simp add: slot_at_eq [OF xs0])
      show "\<And>b. b < length (cells s) \<Longrightarrow> b \<noteq> c \<Longrightarrow> Some b \<noteq> slots C \<Longrightarrow>
         deref s' (Some b) = deref s (Some b)"
        using fr [of "Some b" for b] keep a CC by auto
      show "length (cells s) \<le> length (cells s')" "out s' = out s" "budget s' \<le> budget s"
        using nm o keep by auto
      have top: "deref s' (Some (length (cells s))) = None \<or>
                 deref s' (Some (length (cells s))) = Some (Str x)"
        using nm keep by (auto simp: deref_def)
      have dc0: "deref s (Some c) = Some (Conc C)" by (rule dc)
      show "conc_at s' q = conc_at s q" if "q \<noteq> Some c" for q
      proof -
        consider "q = Some a" | "q = Some (length (cells s))"
          | "q \<noteq> Some a" "q \<noteq> Some (length (cells s))" by blast
        then show ?thesis
        proof cases
          case 1 then show ?thesis using da' da0 by (simp add: conc_at_def)
        next
          case 2 then show ?thesis using top by (auto simp: conc_at_def)
        next
          case 3 then show ?thesis using fr [of q] that keep by (simp add: conc_at_def)
        qed
      qed
      show "str_at s' p = Some y" if "str_at s p = Some y" for p y
      proof -
        from that have dp: "deref s p = Some (Str y)" by (simp add: str_at_deref)
        then have "p \<noteq> Some c" "p \<noteq> Some a" "p \<noteq> Some (length (cells s))"
          using dc0 da0 by auto
        then show ?thesis using fr [of p] keep dp by (simp add: str_at_deref)
      qed
      show "arr_at s' p = Some zs" if "p \<noteq> slots C" "arr_at s p = Some zs" for p zs
      proof -
        from that have dp: "deref s p = Some (Arr zs)" by (simp add: arr_at_deref)
        then have "p \<noteq> Some c" "p \<noteq> Some a" "p \<noteq> Some (length (cells s))"
          using dc0 that a CC by auto
        then show ?thesis using fr [of p] keep dp by (simp add: arr_at_deref)
      qed
    qed
  next
    case (grow n ys)
    let ?L = "length (cells s)"
    from grow C1 have CC: "C1 = C\<lparr>slots := Some ?L, slot_capacity := n\<rparr>"
      by (simp add: conc_at_deref)
    from a CC have aL: "a = ?L" by simp
    from xs grow aL have xy: "xs = ys" by (simp add: arr_at_deref)
    have np_old: "Some np \<noteq> Some c \<and> Some np \<noteq> slots C \<and> Some np \<noteq> Some ?L"
      using x1 grow(11,12,13) by (cases "slots C") auto
    have x0: "str_at s (Some np) = Some x"
      using x1 grow(14) [of "Some np"] np_old by (simp add: str_at_deref)
    show ?thesis
    proof (rule that [of C ?C' x nm])
      show "conc_at s (Some c) = Some C" by (rule C)
      show "conc_at s' (Some c) = Some ?C'" by (rule C')
      show "id_c ?C' = id_c C" "types ?C' = types C" "slot_count ?C' = slot_count C + 1"
        using CC by simp_all
      show "slot_capacity ?C' =
         (if slot_capacity C \<le> slot_count C
          then (if slot_capacity C = 0 then 2 else slot_capacity C * 2)
          else slot_capacity C)"
        using grow CC by simp
      show "0 \<le> slot_count C" using lo CC by simp
      show "slot_count ?C' \<le> slot_capacity ?C'"
        using hi xy grow CC by simp
      show "str_at s (Some np) = Some x" by (rule x0)
      show "slot_at s' ?C' (slot_count C) = Some \<lparr>name = nm, target = Some t\<rparr>"
        using new_slot CC by simp
      show "nm = None \<and> budget s' = 0 \<or>
         (\<exists>b. nm = Some b \<and> length (cells s) \<le> b \<and> str_at s' nm = Some x)"
        using nm grow by (auto simp: str_at_deref)
      show "slot_at s' ?C' i = slot_at s C i" if i: "0 \<le> i" "i < slot_count C" for i
      proof (cases "arr_at s (slots C)")
        case None
        then show ?thesis
          using old_slot [of i] i CC xy grow(3) grow(6) grow(9) [of "nat i"] hi
          by (simp add: slot_at_no_arr)
      next
        case (Some zs)
        show ?thesis
        proof (cases "i < int (length zs)")
          case True
          then show ?thesis
            using old_slot [of i] i CC xy grow(3) grow(6) grow(8) [OF Some, of "nat i"] hi
            by (simp add: slot_at_eq [OF Some])
        next
          case False
          then show ?thesis
            using old_slot [of i] i CC xy grow(3) grow(6) grow(10) [OF Some, of "nat i"] hi
            by (simp add: slot_at_eq [OF Some])
        qed
      qed
      show "deref s' (Some b) = deref s (Some b)"
        if "b < length (cells s)" "b \<noteq> c" "Some b \<noteq> slots C" for b
        using fr [of "Some b"] grow(14) [of "Some b"] grow(15) that aL by simp
      show "length (cells s) \<le> length (cells s')" "out s' = out s" "budget s' \<le> budget s"
        using nm o grow by auto
      have top: "deref s' (Some (length (cells s1))) = None \<or>
                 deref s' (Some (length (cells s1))) = Some (Str x)"
        using nm by (auto simp: deref_def)
      have l1: "length (cells s1) = ?L + 1" using grow by simp
      have old: "deref s' (slots C) = None" if "slots C \<noteq> None"
      proof -
        from that grow(7) obtain zs where "arr_at s (slots C) = Some zs" by auto
        then have dz: "deref s (slots C) = Some (Arr zs)" by (simp add: arr_at_deref)
        from that obtain b where b: "slots C = Some b" by auto
        with dz have "b < ?L" by (auto dest: deref_live)
        with dz dc b have "slots C \<noteq> Some c" "slots C \<noteq> Some a" "slots C \<noteq> Some (length (cells s1))"
          using aL l1 by auto
        then show ?thesis using fr [of "slots C"] grow(13) that by simp
      qed
      show "conc_at s' q = conc_at s q" if "q \<noteq> Some c" for q
      proof -
        show ?thesis
        proof (cases "q = Some ?L \<or> q = Some (length (cells s1))")
          case True
          then show ?thesis
            using da' aL top l1 by (auto simp: conc_at_def deref_def)
        next
          case False
          note fresh = this
          show ?thesis
          proof (cases "q = slots C")
            case True
            show ?thesis
            proof (cases "slots C")
              case None
              with True show ?thesis by (simp add: conc_at_def)
            next
              case (Some b)
              with grow(7) obtain zs where "arr_at s (slots C) = Some zs" by auto
              then have "deref s q = Some (Arr zs)" using True by (simp add: arr_at_deref)
              then show ?thesis using old True Some by (simp add: conc_at_def)
            qed
          next
            case False
            then show ?thesis
              using fr [of q] grow(14) [of q] that aL fresh by (simp add: conc_at_def)
          qed
        qed
      qed
      show "str_at s' p = Some y" if "str_at s p = Some y" for p y
      proof -
        from that have dp: "deref s p = Some (Str y)" by (simp add: str_at_deref)
        then obtain b where b: "p = Some b" "b < ?L" by (cases p) (auto dest: deref_live)
        have "p \<noteq> Some c" using dp dc by auto
        moreover have "p \<noteq> slots C" using dp grow(7) by (auto simp: arr_at_deref)
        ultimately show ?thesis
          using fr [of p] grow(14) [of p] b aL l1 dp by (simp add: str_at_deref)
      qed
      show "arr_at s' p = Some zs" if "p \<noteq> slots C" "arr_at s p = Some zs" for p zs
      proof -
        from that have dp: "deref s p = Some (Arr zs)" by (simp add: arr_at_deref)
        then obtain b where b: "p = Some b" "b < ?L" by (cases p) (auto dest: deref_live)
        have "p \<noteq> Some c" using dp dc by auto
        then show ?thesis
          using fr [of p] grow(14) [of p] b aL l1 dp that by (simp add: arr_at_deref)
      qed
    qed
  qed
  qed
qed

section \<open>Teardown\<close>

lemma free_cases:
  assumes "free ok p s = Inr s'"
  obtains (null) "p = None" "s' = s"
  | (released) a ob where "p = Some a" "deref s p = Some ob" "ok ob" "s' = store a None s"
  using assms by (auto simp: free_def split: option.splits if_splits)

lemma free_deref:
  assumes "free ok p s = Inr s'"
  shows "deref s' q = (if q = p then None else deref s q)"
  using assms
proof (cases rule: free_cases)
  case null
  then show ?thesis by simp
next
  case (released a ob)
  then show ?thesis by (auto simp: deref_store dest: deref_live)
qed

lemma free_fields:
  assumes "free ok p s = Inr s'"
  shows "length (cells s') = length (cells s) \<and> budget s' = budget s \<and> out s' = out s"
  using assms by (cases rule: free_cases) auto

lemma is_Str_iff: "is_Str ob \<longleftrightarrow> (\<exists>x. ob = Str x)"
  by (cases ob) auto

lemma is_Arr_iff: "is_Arr ob \<longleftrightarrow> (\<exists>xs. ob = Arr xs)"
  by (cases ob) auto

lemma is_Conc_iff: "is_Conc ob \<longleftrightarrow> (\<exists>C. ob = Conc C)"
  by (cases ob) auto

lemma free_Str_frame:
  assumes "free is_Str p s = Inr s'"
  shows "conc_at s' q = conc_at s q" and "arr_at s' q = arr_at s q"
    and "slot_at s' C i = slot_at s C i"
proof -
  have d: "\<And>q. deref s' q = (if q = p then None else deref s q)"
    by (rule free_deref [OF assms])
  have p: "p = None \<or> (\<exists>x. deref s p = Some (Str x))"
    using assms by (cases rule: free_cases) (auto simp: is_Str_iff)
  show c: "conc_at s' q = conc_at s q" for q
    using d [of q] p by (auto simp: conc_at_def)
  show a: "arr_at s' q = arr_at s q" for q
    using d [of q] p by (auto simp: arr_at_def)
  show "slot_at s' C i = slot_at s C i"
    by (simp add: slot_at_def a)
qed

lemma free_Arr_frame:
  assumes "free is_Arr p s = Inr s'"
  shows "conc_at s' q = conc_at s q" and "str_at s' q = str_at s q"
proof -
  have d: "\<And>q. deref s' q = (if q = p then None else deref s q)"
    by (rule free_deref [OF assms])
  have p: "p = None \<or> (\<exists>x. deref s p = Some (Arr x))"
    using assms by (cases rule: free_cases) (auto simp: is_Arr_iff)
  show "conc_at s' q = conc_at s q"
    using d [of q] p by (auto simp: conc_at_def)
  show "str_at s' q = str_at s q"
    using d [of q] p by (auto simp: str_at_def)
qed

lemma free_Conc_frame:
  assumes "free is_Conc p s = Inr s'"
  shows "conc_at s' q = (if q = p then None else conc_at s q)"
    and "str_at s' q = str_at s q" and "arr_at s' q = arr_at s q"
proof -
  have d: "\<And>q. deref s' q = (if q = p then None else deref s q)"
    by (rule free_deref [OF assms])
  have p: "p = None \<or> (\<exists>x. deref s p = Some (Conc x))"
    using assms by (cases rule: free_cases) (auto simp: is_Conc_iff)
  show "conc_at s' q = (if q = p then None else conc_at s q)"
    using d [of q] p by (auto simp: conc_at_def)
  show "str_at s' q = str_at s q"
    using d [of q] p by (auto simp: str_at_def)
  show "arr_at s' q = arr_at s q"
    using d [of q] p by (auto simp: arr_at_def)
qed

text \<open>The names the loop of \<open>free_concept\<close> still has to release from index \<open>i\<close> on.\<close>

lemma free_names_effect:
  "free_names C i s = Inr s' \<Longrightarrow> 0 \<le> i \<Longrightarrow>
   length (cells s') = length (cells s) \<and> budget s' = budget s \<and> out s' = out s \<and>
   (\<forall>q. conc_at s' q = conc_at s q) \<and> (\<forall>q. arr_at s' q = arr_at s q) \<and>
   (\<forall>q. deref s' q =
      (if q \<in> set (drop (nat i) (slot_names s C)) then None else deref s q))"
proof (induction C i s rule: free_names.induct)
  case (1 C i s)
  show ?case
  proof (cases "i < slot_count C")
    case False
    then have "drop (nat i) (slot_names s C) = []"
      using "1.prems" by (simp add: slot_names_def)
    with False "1.prems" show ?thesis by (simp add: free_names.simps)
  next
    case True
    with "1.prems" obtain sl s1 where
      sl: "slot_at s C i = Some sl" and s1: "free is_Str (name sl) s = Inr s1"
      and rest: "free_names C (i + 1) s1 = Inr s'"
      by (auto simp: free_names.simps [of C i s] split: option.splits sum.splits)
    have ih: "length (cells s') = length (cells s1) \<and> budget s' = budget s1 \<and> out s' = out s1 \<and>
       (\<forall>q. conc_at s' q = conc_at s1 q) \<and> (\<forall>q. arr_at s' q = arr_at s1 q) \<and>
       (\<forall>q. deref s' q =
          (if q \<in> set (drop (nat (i + 1)) (slot_names s1 C)) then None else deref s1 q))"
      using "1.IH" [OF True sl s1 rest] "1.prems" by simp
    have same: "slot_names s1 C = slot_names s C"
      by (simp add: slot_names_def free_Str_frame(3) [OF s1])
    have i_lt: "nat i < length (slot_names s C)"
      using True "1.prems" by (simp add: slot_names_def)
    have nth: "slot_names s C ! nat i = name sl"
      using True "1.prems" sl by (simp add: slot_names_def)
    have split: "drop (nat i) (slot_names s C) = name sl # drop (nat (i + 1)) (slot_names s C)"
      using Cons_nth_drop_Suc [OF i_lt] nth "1.prems" by (simp add: nat_add_distrib)
    show ?thesis
      using ih free_fields [OF s1] free_Str_frame(1,2) [OF s1] free_deref [OF s1]
      by (auto simp: same split)
  qed
qed


lemma free_concept_effect:
  assumes r: "free_concept (Some c) s = Inr s'"
  obtains (released) C where
    "conc_at s (Some c) = Some C"
    "\<And>q. deref s' q = (if q = Some c \<or> q \<in> set (owned s C) then None else deref s q)"
    "\<And>q. q \<noteq> Some c \<Longrightarrow> conc_at s' q = conc_at s q"
    "conc_at s' (Some c) = None"
    "length (cells s') = length (cells s)" "budget s' = budget s" "out s' = out s"
proof -
  from r obtain C s1 s2 s3 s4 where
    C: "conc_at s (Some c) = Some C"
    and f1: "free is_Str (id_c C) s = Inr s1"
    and f2: "free is_Str (types C) s1 = Inr s2"
    and f3: "free_names C 0 s2 = Inr s3"
    and f4: "free is_Arr (slots C) s3 = Inr s4"
    and f5: "free is_Conc (Some c) s4 = Inr s'"
    by (auto simp: free_concept_def split: option.splits sum.splits)
  note e3 = free_names_effect [OF f3, simplified]
  have names: "slot_names s2 C = slot_names s C"
    by (simp add: slot_names_def free_Str_frame(3) [OF f1] free_Str_frame(3) [OF f2])
  show ?thesis
  proof (rule released [of C])
    show "conc_at s (Some c) = Some C" by (rule C)
    show "deref s' q = (if q = Some c \<or> q \<in> set (owned s C) then None else deref s q)" for q
      using free_deref [OF f1, of q] free_deref [OF f2, of q] e3 free_deref [OF f4, of q]
        free_deref [OF f5, of q]
      by (auto simp: owned_def names)
    show "conc_at s' q = conc_at s q" if "q \<noteq> Some c" for q
      using that free_Str_frame(1) [OF f1, of q] free_Str_frame(1) [OF f2, of q] e3
        free_Arr_frame(1) [OF f4, of q] free_Conc_frame(1) [OF f5, of q]
      by simp
    show "conc_at s' (Some c) = None"
      using free_Conc_frame(1) [OF f5, of "Some c"] by simp
    show "length (cells s') = length (cells s)" "budget s' = budget s" "out s' = out s"
      using free_fields [OF f1] free_fields [OF f2] e3 free_fields [OF f4] free_fields [OF f5]
      by simp_all
  qed
qed


section \<open>Rendering\<close>

lemma print_slot_frame:
  assumes "print_slot sl i s = Inr s'"
  shows "cells s' = cells s \<and> budget s' = budget s \<and> (\<exists>txt. out s' = out s @ txt)"
  using assms
  by (auto simp: print_slot_def Let_def split: option.splits)

lemma print_loop_frame:
  "print_loop C i s = Inr s' \<Longrightarrow>
   cells s' = cells s \<and> budget s' = budget s \<and> (\<exists>txt. out s' = out s @ txt)"
proof (induction C i s rule: print_loop.induct)
  case (1 C i s)
  show ?case
  proof (cases "i < slot_count C")
    case False
    with "1.prems" show ?thesis by (simp add: print_loop.simps)
  next
    case True
    with "1.prems" obtain sl s1 where
      sl: "slot_at s C i = Some sl" and s1: "print_slot sl i s = Inr s1"
      and rest: "print_loop C (i + 1) s1 = Inr s'"
      by (auto simp: print_loop.simps [of C i s] split: option.splits sum.splits)
    from "1.IH" [OF True sl s1 rest] print_slot_frame [OF s1]
    show ?thesis by auto
  qed
qed

lemma print_concept_frame:
  assumes "print_concept p s = Inr s'"
  shows "cells s' = cells s \<and> budget s' = budget s \<and> (\<exists>txt. out s' = out s @ txt)"
proof (cases p)
  case None
  with assms show ?thesis by (simp add: print_concept_def)
next
  case (Some c)
  with assms obtain C i t where
    "print_loop C 0
       (printf (''Slots (# of slots = '' @ show_int (slot_count C) @ ''):'' @ nl)
         (printf (''Types: '' @ t @ nl) (printf (''ID: '' @ i @ nl) s))) = Inr s'"
    by (auto simp: print_concept_def split: option.splits)
  from print_loop_frame [OF this] show ?thesis by auto
qed

text \<open>Rendering depends only on the cells it reads.\<close>

lemma obs_printf [simp]:
  "deref (printf txt u) p = deref u p"
  "str_at (printf txt u) p = str_at u p"
  "conc_at (printf txt u) p = conc_at u p"
  "arr_at (printf txt u) p = arr_at u p"
  "slot_at (printf txt u) C i = slot_at u C i"
  by (simp_all add: str_at_def conc_at_def arr_at_def slot_at_def deref_cells [of "printf txt u" u])

lemma slot_reads_printf [simp]: "slot_reads (printf txt u) sl = slot_reads u sl"
  by (simp add: slot_reads_def)

lemma print_slot_agree:
  assumes r: "print_slot sl i s = Inr r"
    and ag: "\<forall>p \<in> set (slot_reads s sl). deref s' p = deref s p"
    and o: "out s' = out s"
  shows "print_slot sl i s' = Inr (s'\<lparr>out := out r\<rparr>)"
proof -
  have n: "str_at s' (name sl) = str_at s (name sl)"
    and t: "conc_at s' (target sl) = conc_at s (target sl)"
    using ag by (simp_all add: slot_reads_def str_at_def conc_at_def)
  have tid: "str_at s' (id_c T) = str_at s (id_c T)" if "conc_at s (target sl) = Some T" for T
    using ag that by (simp add: slot_reads_def str_at_def)
  have fin: "\<And>a b c. printf c (printf b (printf a s')) =
      s'\<lparr>out := out (printf c (printf b (printf a s)))\<rparr>"
    by (simp add: printf_def o)
  from r obtain nm where nm: "str_at s (name sl) = Some nm"
    by (auto simp: print_slot_def Let_def split: option.splits)
  show ?thesis
  proof (cases "target sl")
    case None
    with r nm n show ?thesis
      by (simp add: print_slot_def Let_def fin)
  next
    case (Some a)
    with r nm obtain T tid' where
      T: "conc_at s (target sl) = Some T" and ti: "str_at s (id_c T) = Some tid'"
      by (auto simp: print_slot_def Let_def split: option.splits)
    from tid [OF T] ti have ti': "str_at s' (id_c T) = Some tid'" by simp
    from T t have T': "conc_at s' (Some a) = Some T" "conc_at s (Some a) = Some T"
      using Some by simp_all
    from r nm n Some T' ti ti' show ?thesis
      by (simp add: print_slot_def Let_def fin)
  qed
qed

lemma slot_reads_cells: "cells u = cells s \<Longrightarrow> slot_reads u sl = slot_reads s sl"
  by (simp add: slot_reads_def conc_at_def deref_cells [of u s])

lemma slot_at_cells: "cells u = cells s \<Longrightarrow> slot_at u C i = slot_at s C i"
  by (simp add: slot_at_def arr_at_def deref_cells [of u s])

lemma print_loop_agree:
  "print_loop C i s = Inr r \<Longrightarrow> out s' = out s \<Longrightarrow>
   deref s' (slots C) = deref s (slots C) \<Longrightarrow>
   (\<forall>j sl. i \<le> j \<and> j < slot_count C \<and> slot_at s C j = Some sl \<longrightarrow>
      (\<forall>p \<in> set (slot_reads s sl). deref s' p = deref s p)) \<Longrightarrow>
   print_loop C i s' = Inr (s'\<lparr>out := out r\<rparr>)"
proof (induction C i s arbitrary: s' rule: print_loop.induct)
  case (1 C i s)
  have sa: "slot_at s' C j = slot_at s C j" for j
    using "1.prems"(3) by (simp add: slot_at_def arr_at_def)
  show ?case
  proof (cases "i < slot_count C")
    case False
    with "1.prems" show ?thesis by (simp add: print_loop.simps)
  next
    case True
    with "1.prems"(1) obtain sl s1 where
      sl: "slot_at s C i = Some sl" and s1: "print_slot sl i s = Inr s1"
      and rest: "print_loop C (i + 1) s1 = Inr r"
      by (auto simp: print_loop.simps [of C i s] split: option.splits sum.splits)
    have "i \<le> i \<and> i < slot_count C \<and> slot_at s C i = Some sl"
      using True sl by simp
    with "1.prems"(4) have ag: "\<forall>p \<in> set (slot_reads s sl). deref s' p = deref s p"
      by blast
    have s1': "print_slot sl i s' = Inr (s'\<lparr>out := out s1\<rparr>)"
      by (rule print_slot_agree [OF s1 ag "1.prems"(2)])
    have c1: "cells s1 = cells s" using print_slot_frame [OF s1] by simp
    have d1: "\<And>p. deref s1 p = deref s p" by (rule deref_cells [OF c1])
    have d1': "\<And>p. deref (s'\<lparr>out := out s1\<rparr>) p = deref s' p"
      by (rule deref_cells) simp
    have "print_loop C (i + 1) (s'\<lparr>out := out s1\<rparr>) = Inr (s'\<lparr>out := out s1\<rparr>\<lparr>out := out r\<rparr>)"
    proof (rule "1.IH" [OF True sl s1 rest])
      show "out (s'\<lparr>out := out s1\<rparr>) = out s1" by simp
      show "deref (s'\<lparr>out := out s1\<rparr>) (slots C) = deref s1 (slots C)"
        using "1.prems"(3) d1 d1' by simp
      show "\<forall>j sl. i + 1 \<le> j \<and> j < slot_count C \<and> slot_at s1 C j = Some sl \<longrightarrow>
          (\<forall>p \<in> set (slot_reads s1 sl). deref (s'\<lparr>out := out s1\<rparr>) p = deref s1 p)"
      proof (intro allI impI ballI)
        fix j sl p
        assume j: "i + 1 \<le> j \<and> j < slot_count C \<and> slot_at s1 C j = Some sl"
          and p: "p \<in> set (slot_reads s1 sl)"
        from j have "i \<le> j \<and> j < slot_count C \<and> slot_at s C j = Some sl"
          by (simp add: slot_at_cells [OF c1])
        moreover from p have "p \<in> set (slot_reads s sl)"
          by (simp add: slot_reads_cells [OF c1])
        ultimately have "deref s' p = deref s p"
          using "1.prems"(4) by blast
        then show "deref (s'\<lparr>out := out s1\<rparr>) p = deref s1 p"
          using d1 d1' by simp
      qed
    qed
    moreover have "slot_at s' C i = Some sl"
      using sl sa by simp
    ultimately show ?thesis
      using True s1' by (simp add: print_loop.simps [of C i s'])
  qed
qed

lemma in_concat_map:
  assumes "n \<in> set xs" "f n = ys" "p \<in> set ys"
  shows "p \<in> set (concat (map f xs))"
  using assms by auto

lemma print_concept_agree:
  assumes r: "print_concept t s = Inr r"
    and ag: "\<forall>p \<in> set (print_reads s t). deref s' p = deref s p"
    and o: "out s' = out s"
  shows "print_concept t s' = Inr (s'\<lparr>out := out r\<rparr>)"
proof (cases t)
  case None
  with r have "r = s" by (simp add: print_concept_def)
  then have "s'\<lparr>out := out r\<rparr> = s'" using o [symmetric] by simp
  with None show ?thesis by (simp add: print_concept_def)
next
  case (Some c)
  let ?hd = "\<lambda>C i ty u. printf (''Slots (# of slots = '' @ show_int (slot_count C) @ ''):'' @ nl)
         (printf (''Types: '' @ ty @ nl) (printf (''ID: '' @ i @ nl) u))"
  from r Some obtain C i ty where
    C: "conc_at s t = Some C" and i: "str_at s (id_c C) = Some i"
    and ty: "str_at s (types C) = Some ty"
    and lp: "print_loop C 0 (?hd C i ty s) = Inr r"
    by (auto simp: print_concept_def split: option.splits)
  have reads: "print_reads s t =
      t # id_c C # types C # slots C #
        concat (map (\<lambda>i. case slot_at s C (int i) of None \<Rightarrow> [] | Some sl \<Rightarrow> slot_reads s sl)
                  [0..<nat (slot_count C)])"
    using C by (simp add: print_reads_def)
  have dt: "deref s' t = deref s t" and di: "deref s' (id_c C) = deref s (id_c C)"
    and dy: "deref s' (types C) = deref s (types C)"
    and ds: "deref s' (slots C) = deref s (slots C)"
    using ag by (simp_all add: reads)
  have sl: "deref s' p = deref s p"
    if j: "0 \<le> j" "j < slot_count C" "slot_at s C j = Some sl"
      and p: "p \<in> set (slot_reads s sl)" for j sl p
  proof -
    let ?f = "\<lambda>i. case slot_at s C (int i) of None \<Rightarrow> [] | Some sl \<Rightarrow> slot_reads s sl"
    have 1: "nat j \<in> set [0..<nat (slot_count C)]" using j by simp
    have 2: "?f (nat j) = slot_reads s sl" using j by simp
    have "p \<in> set (concat (map ?f [0..<nat (slot_count C)]))"
      by (rule in_concat_map [where f = ?f, OF 1 2 p])
    then have "p \<in> set (print_reads s t)" unfolding reads by simp
    with ag show ?thesis by blast
  qed
  have C': "conc_at s' t = Some C" using C dt by (simp add: conc_at_def)
  have i': "str_at s' (id_c C) = Some i" using i di by (simp add: str_at_def)
  have ty': "str_at s' (types C) = Some ty" using ty dy by (simp add: str_at_def)
  have ch: "cells (?hd C i ty s) = cells s" by simp
  have dh: "\<And>p. deref (?hd C i ty s) p = deref s p" by simp
  have dh': "\<And>p. deref (?hd C i ty s') p = deref s' p" by simp
  have "print_loop C 0 (?hd C i ty s') = Inr ((?hd C i ty s')\<lparr>out := out r\<rparr>)"
  proof (rule print_loop_agree [OF lp])
    show "out (?hd C i ty s') = out (?hd C i ty s)" using o by simp
    show "deref (?hd C i ty s') (slots C) = deref (?hd C i ty s) (slots C)"
      using ds dh dh' by simp
    show "\<forall>j sl. 0 \<le> j \<and> j < slot_count C \<and> slot_at (?hd C i ty s) C j = Some sl \<longrightarrow>
        (\<forall>p \<in> set (slot_reads (?hd C i ty s) sl). deref (?hd C i ty s') p = deref (?hd C i ty s) p)"
      using sl by (simp only: obs_printf slot_reads_printf) blast
  qed
  moreover have "(?hd C i ty s')\<lparr>out := out r\<rparr> = s'\<lparr>out := out r\<rparr>"
    by (simp add: printf_def)
  ultimately show ?thesis
    using Some C' i' ty' by (simp add: print_concept_def)
qed

text \<open>The loop of \<open>print_concept\<close> writes the specified format.\<close>

lemma print_slot_text:
  assumes "print_slot sl i s = Inr s'" "0 \<le> i"
  shows "out s' = out s @ render_slot s (nat i) sl"
  using assms
  by (auto simp: print_slot_def Let_def render_slot_def text_at_def
      split: option.splits)

lemma render_slot_cells: "cells u = cells s \<Longrightarrow> render_slot u i sl = render_slot s i sl"
  by (simp add: render_slot_def text_at_def str_at_def conc_at_def deref_cells [of u s]
      cong: option.case_cong)

lemma render_slots_cells: "cells u = cells s \<Longrightarrow> render_slots u C k = render_slots s C k"
  by (simp add: render_slots_def slot_at_cells [of u s] render_slot_cells [of u s]
      cong: option.case_cong)

lemma render_slots_unfold:
  assumes "k < nat (slot_count C)" "slot_at s C (int k) = Some sl"
  shows "render_slots s C k = render_slot s k sl @ render_slots s C (Suc k)"
  using assms by (simp add: render_slots_def upt_conv_Cons)

lemma render_slots_done: "nat (slot_count C) \<le> k \<Longrightarrow> render_slots s C k = []"
  by (simp add: render_slots_def)

lemma print_loop_text:
  "print_loop C i s = Inr s' \<Longrightarrow> 0 \<le> i \<Longrightarrow>
   out s' = out s @ render_slots s C (nat i)"
proof (induction C i s rule: print_loop.induct)
  case (1 C i s)
  show ?case
  proof (cases "i < slot_count C")
    case False
    with "1.prems" have "s' = s" by (simp add: print_loop.simps [of C i s])
    moreover have "render_slots s C (nat i) = []"
      using False "1.prems"(2) by (simp add: render_slots_done)
    ultimately show ?thesis by simp
  next
    case True
    with "1.prems"(1) obtain sl s1 where
      sl: "slot_at s C i = Some sl" and s1: "print_slot sl i s = Inr s1"
      and rest: "print_loop C (i + 1) s1 = Inr s'"
      by (auto simp: print_loop.simps [of C i s] split: option.splits sum.splits)
    have c1: "cells s1 = cells s" using print_slot_frame [OF s1] by simp
    have o1: "out s1 = out s @ render_slot s (nat i) sl"
      by (rule print_slot_text [OF s1 "1.prems"(2)])
    have "out s' = out s1 @ render_slots s1 C (nat (i + 1))"
      using "1.IH" [OF True sl s1 rest] "1.prems"(2) by simp
    also have "render_slots s1 C (nat (i + 1)) = render_slots s C (Suc (nat i))"
      using "1.prems"(2) by (simp add: render_slots_cells [OF c1] nat_add_distrib)
    finally have "out s' = out s @ render_slot s (nat i) sl @ render_slots s C (Suc (nat i))"
      using o1 by simp
    moreover have "render_slots s C (nat i) =
        render_slot s (nat i) sl @ render_slots s C (Suc (nat i))"
      using True "1.prems"(2) sl by (intro render_slots_unfold) simp_all
    ultimately show ?thesis by simp
  qed
qed

lemma print_concept_format:
  assumes "print_concept (Some c) s = Inr s'"
  shows "\<exists>C. conc_at s (Some c) = Some C \<and> out s' = out s @ render_text s C"
proof -
  from assms obtain C i t where
    C: "conc_at s (Some c) = Some C" and i: "str_at s (id_c C) = Some i"
    and t: "str_at s (types C) = Some t"
    and lp: "print_loop C 0
       (printf (''Slots (# of slots = '' @ show_int (slot_count C) @ ''):'' @ nl)
         (printf (''Types: '' @ t @ nl) (printf (''ID: '' @ i @ nl) s))) = Inr s'"
    by (auto simp: print_concept_def split: option.splits)
  let ?h = "printf (''Slots (# of slots = '' @ show_int (slot_count C) @ ''):'' @ nl)
         (printf (''Types: '' @ t @ nl) (printf (''ID: '' @ i @ nl) s))"
  have "cells ?h = cells s" by simp
  then have "render_slots ?h C 0 = render_slots s C 0" by (rule render_slots_cells)
  with print_loop_text [OF lp] have "out s' = out ?h @ render_slots s C 0" by simp
  then have "out s' = out s @ render_text s C"
    using i t by (simp add: render_text_def text_at_def)
  with C show ?thesis by blast
qed

section \<open>Sequences of appends\<close>

lemma commit_returns:
  assumes C: "conc_at s (Some c) = Some C" and a: "slots C = Some a"
    and xs: "arr_at s (Some a) = Some xs"
    and lo: "0 \<le> slot_count C" and hi: "slot_count C < int (length xs)"
    and mx: "slot_count C < INT_MAX" and x: "str_at s np = Some x"
  shows "\<exists>s'. commit c np t s = Inr s'"
  using assms by (simp add: commit_def strdup_def split: prod.splits)

lemma spec_capacity_ge: "int n \<le> spec_capacity n"
  by (induction n) (auto simp: max_def)

lemma add_slot_present_effect:
  assumes "add_slot (Some c) slot_name tgt s = Inr s'" "present_call (slot_name, tgt)"
  obtains np t where "slot_name = Some np" "tgt = Some t"
    "add_slot (Some c) (Some np) (Some t) s = Inr s'"
  using assms by (auto simp: present_call_def)

lemma add_slots_capacity:
  "add_slots (Some c) calls s = Inr s' \<Longrightarrow> list_all present_call calls \<Longrightarrow>
   conc_at s (Some c) = Some C \<Longrightarrow> slot_count C = int k \<Longrightarrow>
   slot_capacity C = spec_capacity k \<Longrightarrow>
   \<exists>C'. conc_at s' (Some c) = Some C' \<and> slot_count C' = int (k + length calls) \<and>
        slot_capacity C' = spec_capacity (k + length calls)"
proof (induction calls arbitrary: s C k)
  case Nil
  then show ?case by simp
next
  case (Cons call calls)
  obtain slot_name tgt where call: "call = (slot_name, tgt)" by (cases call)
  from Cons.prems(1) call obtain s1 where
    a: "add_slot (Some c) slot_name tgt s = Inr s1"
    and rest: "add_slots (Some c) calls s1 = Inr s'"
    by (auto split: sum.splits)
  from Cons.prems(2) call have pc: "present_call (slot_name, tgt)"
    and pcs: "list_all present_call calls" by simp_all
  from a pc obtain np t where "add_slot (Some c) (Some np) (Some t) s = Inr s1"
    by (rule add_slot_present_effect)
  then obtain C1 where C1: "conc_at s1 (Some c) = Some C1"
    and cnt: "slot_count C1 = slot_count C + 1"
    and cap: "slot_capacity C1 =
       (if slot_capacity C \<le> slot_count C
        then (if slot_capacity C = 0 then 2 else slot_capacity C * 2)
        else slot_capacity C)"
    using Cons.prems(3) by (cases rule: add_slot_effect) auto
  have ge: "int k \<le> spec_capacity k" by (rule spec_capacity_ge)
  have cnt1: "slot_count C1 = int (Suc k)" using cnt Cons.prems(4) by simp
  have cap1: "slot_capacity C1 = spec_capacity (Suc k)"
    using cap Cons.prems(4,5) ge by (auto simp: max_def)
  from Cons.IH [OF rest pcs C1 cnt1 cap1] show ?case by simp
qed

lemma add_slots_strings:
  "add_slots (Some c) calls s = Inr s' \<Longrightarrow> list_all present_call calls \<Longrightarrow>
   str_at s p = Some y \<Longrightarrow> str_at s' p = Some y"
proof (induction calls arbitrary: s)
  case Nil
  then show ?case by simp
next
  case (Cons call calls)
  obtain slot_name tgt where call: "call = (slot_name, tgt)" by (cases call)
  from Cons.prems(1) call obtain s1 where
    a: "add_slot (Some c) slot_name tgt s = Inr s1"
    and rest: "add_slots (Some c) calls s1 = Inr s'"
    by (auto split: sum.splits)
  from Cons.prems(2) call have pc: "present_call (slot_name, tgt)"
    and pcs: "list_all present_call calls" by simp_all
  from pc obtain np t where args: "slot_name = Some np" "tgt = Some t"
    by (auto simp: present_call_def)
  from a args have "add_slot (Some c) (Some np) (Some t) s = Inr s1" by simp
  then have "str_at s1 p = Some y"
    using Cons.prems(3) by (cases rule: add_slot_effect) blast
  from Cons.IH [OF rest pcs this] show ?case .
qed

lemma add_slots_budget:
  "add_slots (Some c) calls s = Inr s' \<Longrightarrow> list_all present_call calls \<Longrightarrow>
   budget s' \<le> budget s"
proof (induction calls arbitrary: s)
  case Nil
  then show ?case by simp
next
  case (Cons call calls)
  obtain slot_name tgt where call: "call = (slot_name, tgt)" by (cases call)
  from Cons.prems(1) call obtain s1 where
    a: "add_slot (Some c) slot_name tgt s = Inr s1"
    and rest: "add_slots (Some c) calls s1 = Inr s'"
    by (auto split: sum.splits)
  from Cons.prems(2) call have pc: "present_call (slot_name, tgt)"
    and pcs: "list_all present_call calls" by simp_all
  from pc obtain np t where args: "slot_name = Some np" "tgt = Some t"
    by (auto simp: present_call_def)
  from a args have "add_slot (Some c) (Some np) (Some t) s = Inr s1" by simp
  then have "budget s1 \<le> budget s"
    by (cases rule: add_slot_effect) blast
  with Cons.IH [OF rest pcs] show ?case by simp
qed

section \<open>The invariant as a statement about every concept\<close>

lemma live_inv_iff:
  "live_inv s \<longleftrightarrow> (\<forall>q C. conc_at s q = Some C \<longrightarrow> count_le_capacity C)"
proof
  assume l: "live_inv s"
  show "\<forall>q C. conc_at s q = Some C \<longrightarrow> count_le_capacity C"
  proof (intro allI impI)
    fix q C assume "conc_at s q = Some C"
    then obtain a where "a < length (cells s)" "cells s ! a = Some (Conc C)"
      by (cases q) (auto simp: conc_at_deref deref_def split: if_splits)
    with l show "count_le_capacity C"
      by (auto simp: live_inv_def list_all_length)
  qed
next
  assume r: "\<forall>q C. conc_at s q = Some C \<longrightarrow> count_le_capacity C"
  show "live_inv s"
    unfolding live_inv_def list_all_length
  proof (intro allI impI)
    fix a assume a: "a < length (cells s)"
    show "case cells s ! a of Some (Conc C) \<Rightarrow> count_le_capacity C | _ \<Rightarrow> True"
    proof (cases "cells s ! a")
      case None then show ?thesis by simp
    next
      case (Some ob)
      show ?thesis
      proof (cases ob)
        case (Conc C)
        with Some a have "conc_at s (Some a) = Some C" by (simp add: conc_at_def deref_def)
        with r have "count_le_capacity C" by blast
        with Some Conc show ?thesis by simp
      qed (use Some in simp_all)
    qed
  qed
qed

lemma create_concept_inv:
  assumes a: "create_concept id_arg type_arg sa = Inr (p, sa') \<and> live_inv sa"
  shows "live_inv sa' \<and>
      (\<exists>C. conc_at sa' p = Some C \<and> slot_count C = 0 \<and> slot_capacity C = 0) \<and>
      (\<forall>q Q. conc_at sa q = Some Q \<longrightarrow> conc_at sa' q = Some Q)"
proof (intro conjI)
  note h = a
  from h create_concept_Inr [of id_arg type_arg sa p sa'] obtain i t where
    p: "p = Some (length (cells sa))"
    and c1: "cells sa' = cells sa @
               [Some (Conc \<lparr>id_c = Some (length (cells sa) + 1),
                             types = Some (length (cells sa) + 2), slots = None,
                             slot_count = 0, slot_capacity = 0\<rparr>),
                Some (Str i), Some (Str t)]"
    by auto
  from h show "live_inv sa'"
    by (simp add: live_inv_def c1 count_le_capacity_def)
  show "\<exists>C. conc_at sa' p = Some C \<and> slot_count C = 0 \<and> slot_capacity C = 0"
    by (simp add: conc_at_def deref_def c1 p nth_append)
  show "\<forall>q Q. conc_at sa q = Some Q \<longrightarrow> conc_at sa' q = Some Q"
  proof (intro allI impI)
    fix q Q assume "conc_at sa q = Some Q"
    then obtain a where "q = Some a" "a < length (cells sa)" "cells sa ! a = Some (Conc Q)"
      by (cases q) (auto simp: conc_at_deref deref_def split: if_splits)
    then show "conc_at sa' q = Some Q"
      by (simp add: conc_at_def deref_def c1 nth_append)
  qed
qed

lemma add_slot_inv:
  assumes a: "add_slot concept slot_name tgt sb = Inr sb' \<and> live_inv sb"
  shows "live_inv sb' \<and>
      (\<forall>q Q. conc_at sb q = Some Q \<longrightarrow>
         (\<exists>Q'. conc_at sb' q = Some Q' \<and> slot_capacity Q \<le> slot_capacity Q' \<and>
               (slot_capacity Q' \<noteq> slot_capacity Q \<longrightarrow>
                  q = concept \<and> slot_count Q = slot_capacity Q \<and>
                  slot_capacity Q' = max 2 (slot_capacity Q * 2))))"
proof -
  note h = a
  show "live_inv sb' \<and>
      (\<forall>q Q. conc_at sb q = Some Q \<longrightarrow>
         (\<exists>Q'. conc_at sb' q = Some Q' \<and> slot_capacity Q \<le> slot_capacity Q' \<and>
               (slot_capacity Q' \<noteq> slot_capacity Q \<longrightarrow>
                  q = concept \<and> slot_count Q = slot_capacity Q \<and>
                  slot_capacity Q' = max 2 (slot_capacity Q * 2))))"
  proof (cases "concept = None \<or> slot_name = None \<or> tgt = None")
    case True
    with h have "sb' = sb" by (cases concept) (auto simp: add_slot_def)
    with h show ?thesis by simp
  next
    case False
    then obtain c np t where args: "concept = Some c" "slot_name = Some np" "tgt = Some t"
      by auto
    with h have "add_slot (Some c) (Some np) (Some t) sb = Inr sb'" by simp
    then show ?thesis
    proof (cases rule: add_slot_effect)
      case (1 C C' nm x)
      from h "1"(1) have inv: "slot_count C \<le> slot_capacity C"
        by (auto simp: live_inv_iff count_le_capacity_def)
      have "live_inv sb'"
        unfolding live_inv_iff
      proof (intro allI impI)
        fix q Q assume Q: "conc_at sb' q = Some Q"
        show "count_le_capacity Q"
        proof (cases "q = Some c")
          case True
          with Q "1"(2,8) show ?thesis by (simp add: count_le_capacity_def)
        next
          case False
          with Q "1"(17) [of q] have "conc_at sb q = Some Q" by simp
          with h show ?thesis by (auto simp: live_inv_iff)
        qed
      qed
      moreover have "\<exists>Q'. conc_at sb' q = Some Q' \<and> slot_capacity Q \<le> slot_capacity Q' \<and>
               (slot_capacity Q' \<noteq> slot_capacity Q \<longrightarrow>
                  q = concept \<and> slot_count Q = slot_capacity Q \<and>
                  slot_capacity Q' = max 2 (slot_capacity Q * 2))"
        if Q: "conc_at sb q = Some Q" for q Q
      proof (cases "q = Some c")
        case True
        with Q "1"(1) have "Q = C" by simp
        with True "1"(2,6,7) inv args show ?thesis by (auto simp: max_def)
      next
        case False
        with Q "1"(17) [of q] show ?thesis by simp
      qed
      ultimately show ?thesis by blast
    qed
  qed
qed

lemma print_concept_inv:
  assumes a: "print_concept shown sc = Inr sc' \<and> live_inv sc"
  shows "live_inv sc' \<and> (\<forall>q. conc_at sc' q = conc_at sc q)"
proof -
  note h = a
  from h have "cells sc' = cells sc" using print_concept_frame [of shown sc sc'] by simp
  with h show "live_inv sc' \<and> (\<forall>q. conc_at sc' q = conc_at sc q)"
    by (simp add: live_inv_def conc_at_def deref_cells [of sc' sc])
qed

lemma free_concept_inv:
  assumes a: "free_concept freed sd = Inr sd' \<and> live_inv sd"
  shows "live_inv sd' \<and> (\<forall>q. q \<noteq> freed \<longrightarrow> conc_at sd' q = conc_at sd q) \<and>
      (\<forall>q Q. conc_at sd' q = Some Q \<longrightarrow> conc_at sd q = Some Q)"
proof -
  note h = a
  show "live_inv sd' \<and> (\<forall>q. q \<noteq> freed \<longrightarrow> conc_at sd' q = conc_at sd q) \<and>
      (\<forall>q Q. conc_at sd' q = Some Q \<longrightarrow> conc_at sd q = Some Q)"
  proof (cases freed)
    case None
    with h have "sd' = sd" by (simp add: free_concept_def)
    with h show ?thesis by simp
  next
    case (Some c)
    with h have "free_concept (Some c) sd = Inr sd'" by simp
    then show ?thesis
    proof (cases rule: free_concept_effect)
      case (released C)
      have sub: "conc_at sd q = Some Q" if "conc_at sd' q = Some Q" for q Q
        using that released(3) [of q] released(4) by (cases "q = Some c") simp_all
      with h have "live_inv sd'" by (auto simp: live_inv_iff)
      with sub released(3) Some show ?thesis by blast
    qed
  qed
qed

lemma step_inv:
  assumes "step c s = Inr s'" "live_inv s"
  shows "live_inv s'"
proof (cases c)
  case (Construct i t)
  with assms obtain p where "create_concept i t s = Inr (p, s')"
    by (cases "create_concept i t s") auto
  with assms(2) create_concept_inv [of i t s p s'] show ?thesis by simp
next
  case (Append k n t)
  with assms add_slot_inv [of k n t s s'] show ?thesis by simp
next
  case (Render k)
  with assms print_concept_inv [of k s s'] show ?thesis by simp
next
  case (Teardown k)
  with assms free_concept_inv [of k s s'] show ?thesis by simp
qed

lemma run_inv:
  "run calls s = Inr s' \<Longrightarrow> live_inv s \<Longrightarrow> live_inv s'"
proof (induction calls arbitrary: s)
  case Nil
  then show ?case by simp
next
  case (Cons c calls)
  from Cons.prems(1) obtain s1 where 1: "step c s = Inr s1" and 2: "run calls s1 = Inr s'"
    by (auto split: sum.splits)
  from Cons.IH [OF 2 step_inv [OF 1 Cons.prems(2)]] show ?case .
qed

section \<open>The demonstration run\<close>

lemmas eval_defs =
  main_def main_init_def create_concept_def malloc_def strdup_def str_at_def deref_def
  store_def add_slot_def conc_at_def resize_def new_capacity_def realloc_def commit_def
  arr_at_def print_concept_def print_loop.simps print_slot_def slot_at_def printf_def
  show_int_def show_nat.simps digit_def demo_text_def demo_state_def nth_append
  INT_MAX_def INT_MIN_def free_concept_def free_def free_names.simps nl_def tab_def

lemma demo_state_built:
  "(case create_concept (Some 0) (Some 1) (main_init 8) of
      Inr (john, s1) \<Rightarrow>
        (case create_concept (Some 2) (Some 3) s1 of
           Inr (book, s2) \<Rightarrow> add_slot john (Some 4) book s2))
   = Inr demo_state"
  by code_simp

lemma self_loop_state_built:
  "(case create_concept (Some 0) (Some 1) (main_init 5) of
      Inr (john, s1) \<Rightarrow> add_slot john (Some 4) john s1) = Inr self_loop_state"
  by code_simp

lemma tight_state_built:
  "(case create_concept (Some 0) (Some 1) (main_init 7) of
      Inr (john, s1) \<Rightarrow> map_sum id snd (create_concept (Some 2) (Some 3) s1))
   = Inr tight_state"
  by code_simp

text \<open>
  A second concept that points back: a and b are constructed, a gets a slot to b and b a
  slot to a. After the teardown of a, the record of b is as before, but rendering b reads
  the id of a, which is gone.
\<close>

lemma back_reference_dangles:
  "(case create_concept (Some 0) (Some 1) (main_init 12) of
      Inr (a, s1) \<Rightarrow>
        (case create_concept (Some 2) (Some 3) s1 of
           Inr (b, s2) \<Rightarrow>
             (case add_slot a (Some 4) b s2 of
                Inr s3 \<Rightarrow>
                  (case add_slot b (Some 4) a s3 of
                     Inr s4 \<Rightarrow>
                       (case free_concept a s4 of
                          Inr s5 \<Rightarrow> (conc_at s5 b = conc_at s4 b, print_concept b s5))))))
   = (True, Inl Undefined)"
  by code_simp

lemma main_short: "b < 8 \<Longrightarrow> isl (main b)"
proof -
  assume "b < 8"
  then consider "b = 0" | "b = 1" | "b = 2" | "b = 3" | "b = 4" | "b = 5" | "b = 6" | "b = 7"
    by linarith
  moreover have "isl (main 0)" "isl (main 1)" "isl (main 2)" "isl (main 3)" "isl (main 4)"
    "isl (main 5)" "isl (main 6)" "isl (main 7)"
    by code_simp+
  ultimately show ?thesis by cases simp_all
qed

section \<open>The claims\<close>

text \<open>
  C1. Sequences of appends with present arguments. \<open>add_slot\<close> stores
  \<open>strdup(slot_name)\<close> without looking at the result, where \<open>create_concept\<close>
  checks its copies and \<open>add_slot\<close> itself checks \<open>realloc\<close>. With one allocation
  left, \<open>add_slot(john, "owns", book)\<close> on two new concepts grows the slot array, fails
  to copy the name, and still commits the slot and counts it: the call returns, the count
  is 1, and slot 0 holds the target and no name at all. The slot does not hold a copy of
  the name given in its call; rendering john is then undefined (\<open>%s\<close> of a null
  pointer), as in the run of \<open>main\<close> with seven allocations.
\<close>

theorem add_slot_name_copy_unchecked:
  "str_at tight_state (Some 4) = Some ''owns'' \<and>
   add_slot (Some 5) (Some 4) (Some 8) tight_state = Inr tight_added \<and>
   conc_at tight_added (Some 5) =
     Some \<lparr>id_c = Some 6, types = Some 7, slots = Some 11,
           slot_count = 1, slot_capacity = 2\<rparr> \<and>
   slot_at tight_added
     \<lparr>id_c = Some 6, types = Some 7, slots = Some 11, slot_count = 1, slot_capacity = 2\<rparr> 0 =
     Some \<lparr>name = None, target = Some 8\<rparr> \<and>
   print_concept (Some 5) tight_added = Inl Undefined \<and>
   main 7 = Inl Undefined"
  by code_simp

text \<open>
  What does hold of every such sequence that returns: the count grows by the number of
  calls, the slots that were there stay as they were, and the new slots follow in the
  order of the calls, the \<open>i\<close>-th holding exactly the target of the \<open>i\<close>-th call; two
  calls with the same name give two slots. The name of a new slot is a string in storage
  of its own with the text of the caller's name, or it is absent, and that only when the
  allocations were used up.
\<close>

theorem add_slots_in_call_order:
  "add_slots (Some c) calls s = Inr s' \<Longrightarrow> list_all present_call calls \<Longrightarrow>
   conc_at s (Some c) = Some C \<Longrightarrow>
   \<exists>C'. conc_at s' (Some c) = Some C' \<and>
     slot_count C' = slot_count C + int (length calls) \<and>
     (\<forall>j. 0 \<le> j \<and> j < slot_count C \<longrightarrow> slot_at s' C' j = slot_at s C j) \<and>
     (\<forall>i < length calls. \<exists>nm.
        slot_at s' C' (slot_count C + int i) = Some \<lparr>name = nm, target = snd (calls ! i)\<rparr> \<and>
        (nm = None \<and> budget s' = 0 \<or>
         nm \<noteq> fst (calls ! i) \<and> str_at s' nm \<noteq> None \<and>
         str_at s' nm = str_at s' (fst (calls ! i))))"
proof (induction calls arbitrary: s C)
  case Nil
  then show ?case by simp
next
  case (Cons call calls)
  obtain slot_name tgt where call: "call = (slot_name, tgt)" by (cases call)
  from Cons.prems(1) call obtain s1 where
    a: "add_slot (Some c) slot_name tgt s = Inr s1"
    and rest: "add_slots (Some c) calls s1 = Inr s'"
    by (auto split: sum.splits)
  from Cons.prems(2) call have pc: "present_call (slot_name, tgt)"
    and pcs: "list_all present_call calls" by simp_all
  from pc obtain np t where args: "slot_name = Some np" "tgt = Some t"
    by (auto simp: present_call_def)
  from a args have "add_slot (Some c) (Some np) (Some t) s = Inr s1" by simp
  then show ?case
  proof (cases rule: add_slot_effect)
    case (1 C0 C1 nm x)
    from "1"(1) Cons.prems(3) have C0: "C0 = C" by simp
    note C1 = "1"(2) and cnt = "1"(5) and lo = "1"(7) and x = "1"(9)
      and new = "1"(10) and nm = "1"(11) and old = "1"(12)
    from Cons.IH [OF rest pcs C1] obtain C' where
      C': "conc_at s' (Some c) = Some C'"
      and cnt': "slot_count C' = slot_count C1 + int (length calls)"
      and old': "\<forall>j. 0 \<le> j \<and> j < slot_count C1 \<longrightarrow> slot_at s' C' j = slot_at s1 C1 j"
      and new': "\<forall>i < length calls. \<exists>nm.
        slot_at s' C' (slot_count C1 + int i) =
          Some \<lparr>name = nm, target = snd (calls ! i)\<rparr> \<and>
        (nm = None \<and> budget s' = 0 \<or>
         nm \<noteq> fst (calls ! i) \<and> str_at s' nm \<noteq> None \<and>
         str_at s' nm = str_at s' (fst (calls ! i)))"
      by blast
    have x': "str_at s' (Some np) = Some x"
      by (rule add_slots_strings [OF rest pcs]) (rule "1"(18) [OF x])
    have b': "budget s' \<le> budget s1" by (rule add_slots_budget [OF rest pcs])
    have first: "\<exists>nm. slot_at s' C' (slot_count C) = Some \<lparr>name = nm, target = tgt\<rparr> \<and>
        (nm = None \<and> budget s' = 0 \<or>
         nm \<noteq> slot_name \<and> str_at s' nm \<noteq> None \<and> str_at s' nm = str_at s' slot_name)"
    proof -
      have "slot_at s' C' (slot_count C) = slot_at s1 C1 (slot_count C)"
        using old' lo cnt C0 by simp
      then have sl: "slot_at s' C' (slot_count C) = Some \<lparr>name = nm, target = tgt\<rparr>"
        using new C0 args by simp
      from nm show ?thesis
      proof
        assume "nm = None \<and> budget s1 = 0"
        with b' sl show ?thesis by auto
      next
        assume "\<exists>b. nm = Some b \<and> length (cells s) \<le> b \<and> str_at s1 nm = Some x"
        then obtain b where b: "nm = Some b" "length (cells s) \<le> b" "str_at s1 nm = Some x"
          by blast
        have "str_at s' nm = Some x" by (rule add_slots_strings [OF rest pcs b(3)])
        moreover have "np < length (cells s)"
          using x by (auto simp: str_at_deref dest: deref_live)
        ultimately show ?thesis using sl b x' args by auto
      qed
    qed
    show ?thesis
    proof (rule exI [of _ C'], intro conjI allI impI)
      show "conc_at s' (Some c) = Some C'" by (rule C')
      show "slot_count C' = slot_count C + int (length (call # calls))"
        using cnt' cnt C0 by simp
      show "slot_at s' C' j = slot_at s C j" if "0 \<le> j \<and> j < slot_count C" for j
        using old' old [of j] that cnt C0 by simp
      show "\<exists>nm. slot_at s' C' (slot_count C + int i) =
            Some \<lparr>name = nm, target = snd ((call # calls) ! i)\<rparr> \<and>
          (nm = None \<and> budget s' = 0 \<or>
           nm \<noteq> fst ((call # calls) ! i) \<and> str_at s' nm \<noteq> None \<and>
           str_at s' nm = str_at s' (fst ((call # calls) ! i)))"
        if "i < length (call # calls)" for i
      proof (cases i)
        case 0
        with first call show ?thesis by simp
      next
        case (Suc k)
        with that have "k < length calls" by simp
        with new' have "\<exists>nm. slot_at s' C' (slot_count C1 + int k) =
            Some \<lparr>name = nm, target = snd (calls ! k)\<rparr> \<and>
          (nm = None \<and> budget s' = 0 \<or>
           nm \<noteq> fst (calls ! k) \<and> str_at s' nm \<noteq> None \<and>
           str_at s' nm = str_at s' (fst (calls ! k)))" by blast
        moreover have "slot_count C1 + int k = slot_count C + int i"
          using cnt C0 Suc by simp
        ultimately show ?thesis using Suc by simp
      qed
    qed
  qed
qed

theorem add_slots_in_call_order_witness:
  "\<exists>s' C C'.
     add_slots (Some 5) [(Some 4, Some 8), (Some 4, Some 5)] (tight_state\<lparr>budget := 4\<rparr>) = Inr s' \<and>
     list_all present_call [(Some 4, Some 8), (Some 4, Some 5)] \<and>
     conc_at (tight_state\<lparr>budget := 4\<rparr>) (Some 5) = Some C \<and>
     conc_at s' (Some 5) = Some C' \<and> slot_count C' = 2 \<and>
     (\<exists>nm. slot_at s' C' 0 = Some \<lparr>name = nm, target = Some 8\<rparr> \<and>
           str_at s' nm = Some ''owns'') \<and>
     (\<exists>nm. slot_at s' C' 1 = Some \<lparr>name = nm, target = Some 5\<rparr> \<and>
           str_at s' nm = Some ''owns'')"
proof -
  let ?s = "tight_state\<lparr>budget := 4\<rparr>"
  let ?calls = "[(Some 4, Some 8), (Some 4, Some 5)] :: (ptr \<times> ptr) list"
  let ?C = "\<lparr>id_c = Some 6, types = Some 7, slots = None,
             slot_count = 0, slot_capacity = 0\<rparr>"
  have "\<not> isl (add_slots (Some 5) ?calls ?s)" by code_simp
  then obtain s' where r: "add_slots (Some 5) ?calls ?s = Inr s'"
    by (cases "add_slots (Some 5) ?calls ?s") auto
  have pcs: "list_all present_call ?calls" by code_simp
  have C: "conc_at ?s (Some 5) = Some ?C" by code_simp
  have b: "case add_slots (Some 5) ?calls ?s of Inl e \<Rightarrow> False | Inr u \<Rightarrow> 0 < budget u"
    by code_simp
  with r have b': "0 < budget s'" by simp
  have o: "str_at ?s (Some 4) = Some ''owns''" by code_simp
  have o': "str_at s' (Some 4) = Some ''owns''"
    by (rule add_slots_strings [OF r pcs o])
  from add_slots_in_call_order [OF r pcs C] obtain C' where
    C': "conc_at s' (Some 5) = Some C'" "slot_count C' = slot_count ?C + int (length ?calls)"
    and new: "\<forall>i < length ?calls. \<exists>nm.
        slot_at s' C' (slot_count ?C + int i) =
          Some \<lparr>name = nm, target = snd (?calls ! i)\<rparr> \<and>
        (nm = None \<and> budget s' = 0 \<or>
         nm \<noteq> fst (?calls ! i) \<and> str_at s' nm \<noteq> None \<and>
         str_at s' nm = str_at s' (fst (?calls ! i)))"
    by blast
  from new [rule_format, of 0] b' o'
  have 0: "\<exists>nm. slot_at s' C' 0 = Some \<lparr>name = nm, target = Some 8\<rparr> \<and>
           str_at s' nm = Some ''owns''" by auto
  from new [rule_format, of 1] b' o'
  have 1: "\<exists>nm. slot_at s' C' 1 = Some \<lparr>name = nm, target = Some 5\<rparr> \<and>
           str_at s' nm = Some ''owns''" by auto
  from C' have "slot_count C' = 2" by simp
  with r pcs C C' 0 1 show ?thesis by blast
qed

text \<open>
  An append with present arguments returns: for a well-formed concept, a name that points
  to a string, a capacity whose double fits in an \<open>int\<close>, and two allocations
  available, \<open>add_slot\<close> neither exits nor runs into undefined behaviour.
\<close>

theorem add_slot_returns:
  assumes C: "conc_at s (Some c) = Some C" and wf: "well_formed s C"
    and x: "str_at s (Some np) = Some x"
    and cap: "slot_capacity C * 2 \<le> INT_MAX" and b: "2 \<le> budget s"
  shows "\<exists>s'. add_slot (Some c) (Some np) (Some t) s = Inr s'"
proof (cases "slot_count C < slot_capacity C")
  case True
  then have r: "resize c C s = Inr s" by (simp add: resize_def)
  from wf True obtain a xs where a: "slots C = Some a" and xs: "arr_at s (Some a) = Some xs"
    and len: "int (length xs) = slot_capacity C"
    by (auto simp: well_formed_def split: option.splits)
  from wf have lo: "0 \<le> slot_count C" by (simp add: well_formed_def)
  have mx: "slot_count C < INT_MAX" using True cap lo by simp
  from commit_returns [OF C a xs lo _ mx x, where t = "Some t"] True len
  obtain s' where "commit c (Some np) (Some t) s = Inr s'" by auto
  with C r show ?thesis by (simp add: add_slot_def)
next
  case False
  from wf have lo: "0 \<le> slot_count C" and le: "slot_count C \<le> slot_capacity C"
    by (simp_all add: well_formed_def)
  with False have eq: "slot_count C = slot_capacity C" by simp
  let ?n = "if slot_capacity C = 0 then 2 else slot_capacity C * 2"
  let ?L = "length (cells s)"
  have n: "new_capacity (slot_capacity C) = Inr ?n"
    using cap lo eq by (simp add: new_capacity_def INT_MIN_def)
  have npos: "0 \<le> ?n" "slot_count C < ?n" using lo eq by auto
  from C have dc: "deref s (Some c) = Some (Conc C)" by (simp add: conc_at_deref)
  then have c_lt: "c < ?L" by (rule deref_live)
  from x have dx: "deref s (Some np) = Some (Str x)" by (simp add: str_at_deref)
  then have np_lt: "np < ?L" by (rule deref_live)
  from dc dx have npc: "np \<noteq> c" by auto
  obtain ys s0 where
    re: "realloc (slots C) ?n s = Inr (Some ?L, s0)"
    and d0: "deref s0 (Some ?L) = Some (Arr ys)" and ly: "length ys = nat ?n"
    and dx0: "deref s0 (Some np) = Some (Str x)"
    and l0: "length (cells s0) = ?L + 1" and b0: "budget s0 = budget s - 1"
  proof (cases "slots C")
    case None
    let ?ys = "replicate (nat ?n) (None :: Slot option)"
    let ?s0 = "s\<lparr>cells := cells s @ [Some (Arr ?ys)], budget := budget s - 1\<rparr>"
    show ?thesis
    proof (rule that [of ?s0 ?ys])
      show "realloc (slots C) ?n s = Inr (Some ?L, ?s0)"
        using None b npos by (simp add: realloc_def malloc_def)
      show "deref ?s0 (Some ?L) = Some (Arr ?ys)" by (simp add: deref_alloc)
      show "length ?ys = nat ?n" by simp
      show "deref ?s0 (Some np) = Some (Str x)" using dx np_lt by (simp add: deref_alloc)
      show "length (cells ?s0) = ?L + 1" "budget ?s0 = budget s - 1" by simp_all
    qed
  next
    case (Some a)
    with wf obtain xs where xs: "arr_at s (Some a) = Some xs"
      by (auto simp: well_formed_def split: option.splits)
    then have da: "deref s (Some a) = Some (Arr xs)" by (simp add: arr_at_deref)
    then have a_lt: "a < ?L" by (rule deref_live)
    from da dx have npa: "np \<noteq> a" by auto
    let ?ys = "take (nat ?n) xs @ replicate (nat ?n - length xs) None"
    let ?s0 = "store a None (s\<lparr>cells := cells s @ [Some (Arr ?ys)], budget := budget s - 1\<rparr>)"
    show ?thesis
    proof (rule that [of ?s0 ?ys])
      show "realloc (slots C) ?n s = Inr (Some ?L, ?s0)"
        using Some xs b npos by (simp add: realloc_def malloc_def)
      show "deref ?s0 (Some ?L) = Some (Arr ?ys)"
        using a_lt by (simp add: deref_store deref_alloc)
      show "length ?ys = nat ?n" by simp
      show "deref ?s0 (Some np) = Some (Str x)"
        using dx np_lt npa by (simp add: deref_store deref_alloc)
      show "length (cells ?s0) = ?L + 1" "budget ?s0 = budget s - 1" by simp_all
    qed
  qed
  let ?C1 = "C\<lparr>slots := Some ?L, slot_capacity := ?n\<rparr>"
  let ?s1 = "store c (Some (Conc ?C1)) s0"
  have rs: "resize c C s = Inr ?s1"
    using False n re by (simp add: resize_def)
  have C1: "conc_at ?s1 (Some c) = Some ?C1"
    using c_lt l0 by (simp add: conc_at_def deref_store)
  have a1: "arr_at ?s1 (Some ?L) = Some ys"
    using d0 c_lt by (simp add: arr_at_def deref_store)
  have x1: "str_at ?s1 (Some np) = Some x"
    using dx0 npc by (simp add: str_at_def deref_store)
  have mx: "slot_count ?C1 < INT_MAX" using eq cap lo by (simp add: INT_MAX_def)
  have hi: "slot_count ?C1 < int (length ys)" using ly npos by simp
  from commit_returns [OF C1 _ a1 _ hi mx x1, where t = "Some t"] lo
  obtain s' where "commit c (Some np) (Some t) ?s1 = Inr s'" by auto
  with C rs show ?thesis by (simp add: add_slot_def)
qed

theorem add_slot_returns_witness:
  "conc_at (tight_state\<lparr>budget := 2\<rparr>) (Some 5) =
     Some \<lparr>id_c = Some 6, types = Some 7, slots = None, slot_count = 0, slot_capacity = 0\<rparr> \<and>
   well_formed (tight_state\<lparr>budget := 2\<rparr>)
     \<lparr>id_c = Some 6, types = Some 7, slots = None, slot_count = 0, slot_capacity = 0\<rparr> \<and>
   str_at (tight_state\<lparr>budget := 2\<rparr>) (Some 4) = Some ''owns'' \<and>
   (\<exists>s'. add_slot (Some 5) (Some 4) (Some 8) (tight_state\<lparr>budget := 2\<rparr>) = Inr s')"
proof -
  let ?s = "tight_state\<lparr>budget := 2\<rparr>"
  let ?C = "\<lparr>id_c = Some 6, types = Some 7, slots = None, slot_count = 0, slot_capacity = 0\<rparr>"
  have C: "conc_at ?s (Some 5) = Some ?C" by code_simp
  have wf: "well_formed ?s ?C" by code_simp
  have x: "str_at ?s (Some 4) = Some ''owns''" by code_simp
  have cap: "slot_capacity ?C * 2 \<le> INT_MAX" by (simp add: INT_MAX_def)
  have b: "2 \<le> budget ?s" by simp
  from add_slot_returns [OF C wf x cap b, of 8] C wf x show ?thesis by blast
qed

text \<open>
  C2. Growth of the capacity. For a concept whose count does not exceed its capacity, a
  successful append changes the capacity exactly when the count equals the capacity, and
  then the new capacity is \<open>max(2, capacity * 2)\<close>. For a concept built by
  \<open>create_concept\<close> and then only appended to, with every call's name and target
  present and every call returning, the count after \<open>n\<close> appends is \<open>n\<close> and the
  capacity is what the specification's rule gives for \<open>n\<close> appends: 2 after the 1st
  append, 4 after the 3rd, 8 after the 5th and 16 after the 9th.
\<close>

theorem capacity_growth:
  "(add_slot (Some c) (Some np) (Some t) s = Inr s' \<and> conc_at s (Some c) = Some C \<and>
    slot_count C \<le> slot_capacity C \<longrightarrow>
      (\<exists>C'. conc_at s' (Some c) = Some C' \<and>
            (slot_capacity C' \<noteq> slot_capacity C \<longleftrightarrow> slot_count C = slot_capacity C) \<and>
            (slot_count C = slot_capacity C \<longrightarrow>
               slot_capacity C' = max 2 (slot_capacity C * 2)))) \<and>
   (create_concept id_arg type_arg s0 = Inr (p, s1) \<and> list_all present_call calls \<and>
    add_slots p calls s1 = Inr s2 \<longrightarrow>
      (\<exists>C2. conc_at s2 p = Some C2 \<and> slot_count C2 = int (length calls) \<and>
            slot_capacity C2 = spec_capacity (length calls) \<and>
            (length calls = 1 \<longrightarrow> slot_capacity C2 = 2) \<and>
            (length calls = 3 \<longrightarrow> slot_capacity C2 = 4) \<and>
            (length calls = 5 \<longrightarrow> slot_capacity C2 = 8) \<and>
            (length calls = 9 \<longrightarrow> slot_capacity C2 = 16)))"
proof (intro conjI impI)
  assume h: "add_slot (Some c) (Some np) (Some t) s = Inr s' \<and> conc_at s (Some c) = Some C \<and>
    slot_count C \<le> slot_capacity C"
  then have "add_slot (Some c) (Some np) (Some t) s = Inr s'" by simp
  then show "\<exists>C'. conc_at s' (Some c) = Some C' \<and>
            (slot_capacity C' \<noteq> slot_capacity C \<longleftrightarrow> slot_count C = slot_capacity C) \<and>
            (slot_count C = slot_capacity C \<longrightarrow>
               slot_capacity C' = max 2 (slot_capacity C * 2))"
  proof (cases rule: add_slot_effect)
    case (1 C0 C' nm x)
    from "1"(1) h have "C0 = C" by simp
    with "1"(2,6,7) h show ?thesis by (auto simp: max_def)
  qed
next
  assume h: "create_concept id_arg type_arg s0 = Inr (p, s1) \<and> list_all present_call calls \<and>
    add_slots p calls s1 = Inr s2"
  from h create_concept_Inr [of id_arg type_arg s0 p s1] obtain i t where
    p: "p = Some (length (cells s0))"
    and c1: "cells s1 = cells s0 @
               [Some (Conc \<lparr>id_c = Some (length (cells s0) + 1),
                             types = Some (length (cells s0) + 2), slots = None,
                             slot_count = 0, slot_capacity = 0\<rparr>),
                Some (Str i), Some (Str t)]"
    by auto
  let ?C = "\<lparr>id_c = Some (length (cells s0) + 1), types = Some (length (cells s0) + 2),
             slots = None, slot_count = 0, slot_capacity = 0\<rparr>"
  have C: "conc_at s1 (Some (length (cells s0))) = Some ?C"
    by (simp add: conc_at_def deref_def c1 nth_append)
  from h p have run: "add_slots (Some (length (cells s0))) calls s1 = Inr s2"
    and pcs: "list_all present_call calls" by simp_all
  from add_slots_capacity [OF run pcs C, of 0] obtain C2 where
    C2: "conc_at s2 p = Some C2" "slot_count C2 = int (length calls)"
    "slot_capacity C2 = spec_capacity (length calls)"
    using p by auto
  have v: "spec_capacity 1 = 2" "spec_capacity 3 = 4" "spec_capacity 5 = 8"
    "spec_capacity 9 = 16"
    by code_simp+
  show "\<exists>C2. conc_at s2 p = Some C2 \<and> slot_count C2 = int (length calls) \<and>
            slot_capacity C2 = spec_capacity (length calls) \<and>
            (length calls = 1 \<longrightarrow> slot_capacity C2 = 2) \<and>
            (length calls = 3 \<longrightarrow> slot_capacity C2 = 4) \<and>
            (length calls = 5 \<longrightarrow> slot_capacity C2 = 8) \<and>
            (length calls = 9 \<longrightarrow> slot_capacity C2 = 16)"
    using C2 v by (intro exI [of _ C2]) simp
qed

theorem capacity_growth_witness:
  "\<exists>s' C C' p s1 s2 C2.
     add_slot (Some 5) (Some 4) (Some 8) (demo_state\<lparr>budget := 2\<rparr>) = Inr s' \<and>
     conc_at (demo_state\<lparr>budget := 2\<rparr>) (Some 5) = Some C \<and>
     slot_count C \<le> slot_capacity C \<and>
     conc_at s' (Some 5) = Some C' \<and> slot_capacity C' = slot_capacity C \<and>
     create_concept (Some 0) (Some 1) (main_init 30) = Inr (p, s1) \<and>
     list_all present_call (replicate 9 (Some 4, p)) \<and>
     add_slots p (replicate 9 (Some 4, p)) s1 = Inr s2 \<and>
     conc_at s2 p = Some C2 \<and> slot_capacity C2 = 16"
proof -
  let ?s = "demo_state\<lparr>budget := 2\<rparr>"
  let ?C = "\<lparr>id_c = Some 6, types = Some 7, slots = Some 11,
             slot_count = 1, slot_capacity = 2\<rparr>"
  have "\<not> isl (add_slot (Some 5) (Some 4) (Some 8) ?s)" by code_simp
  then obtain s' where a: "add_slot (Some 5) (Some 4) (Some 8) ?s = Inr s'"
    by (cases "add_slot (Some 5) (Some 4) (Some 8) ?s") auto
  have C: "conc_at ?s (Some 5) = Some ?C" by code_simp
  have inv: "slot_count ?C \<le> slot_capacity ?C" by simp
  have "\<not> isl (create_concept (Some 0) (Some 1) (main_init 30))" by code_simp
  then obtain p s1 where c: "create_concept (Some 0) (Some 1) (main_init 30) = Inr (p, s1)"
    by (cases "create_concept (Some 0) (Some 1) (main_init 30)") auto
  have "case create_concept (Some 0) (Some 1) (main_init 30) of
          Inl e \<Rightarrow> False
        | Inr (p, s1) \<Rightarrow>
            list_all present_call (replicate 9 (Some 4, p)) \<and>
            \<not> isl (add_slots p (replicate 9 (Some 4, p)) s1)"
    by code_simp
  with c have pcs: "list_all present_call (replicate 9 (Some 4, p))"
    and "\<not> isl (add_slots p (replicate 9 (Some 4, p)) s1)" by simp_all
  then obtain s2 where r: "add_slots p (replicate 9 (Some 4, p)) s1 = Inr s2"
    by (cases "add_slots p (replicate 9 (Some 4, p)) s1") auto
  note th = capacity_growth [of 5 4 8 ?s s' ?C "Some 0" "Some 1" "main_init 30" p s1
      "replicate 9 (Some 4, p)" s2]
  from th a C inv obtain C' where
    "conc_at s' (Some 5) = Some C'" "slot_capacity C' = slot_capacity ?C"
    by auto
  moreover from th c pcs r obtain C2 where "conc_at s2 p = Some C2" "slot_capacity C2 = 16"
    by auto
  ultimately show ?thesis using a C inv c pcs r by blast
qed

text \<open>
  C3. The run of \<open>main\<close>: construct john/Person, construct book/Object, append
  (john, owns, book), render john. With its eight allocations available the run returns,
  and every run that returns has status 0 and has written exactly the text of the
  specification to the standard output. In general, whenever \<open>print_concept\<close> returns
  it has appended the specified format to the standard output: the id, the type label,
  the slot count, then per slot its 1-based ordinal, its name and its target's id,
  tab-indented.
\<close>

theorem main_output:
  "(8 \<le> b \<longrightarrow> (\<exists>s. main b = Inr (0, s))) \<and>
   (\<forall>status s. main b = Inr (status, s) \<longrightarrow> status = 0 \<and> out s = demo_text) \<and>
   (\<forall>c s s'. print_concept (Some c) s = Inr s' \<longrightarrow>
      (\<exists>C. conc_at s (Some c) = Some C \<and> out s' = out s @ render_text s C))"
proof (intro conjI)
  show "8 \<le> b \<longrightarrow> (\<exists>s. main b = Inr (0, s))"
    by (simp add: eval_defs)
  show "\<forall>status s. main b = Inr (status, s) \<longrightarrow> status = 0 \<and> out s = demo_text"
  proof (cases "8 \<le> b")
    case True
    then have "\<exists>s. main b = Inr (0, s) \<and> out s = demo_text"
      by (simp add: eval_defs)
    then show ?thesis by auto
  next
    case False
    then have "isl (main b)" by (simp add: main_short)
    then show ?thesis by (cases "main b") auto
  qed
  show "\<forall>c s s'. print_concept (Some c) s = Inr s' \<longrightarrow>
      (\<exists>C. conc_at s (Some c) = Some C \<and> out s' = out s @ render_text s C)"
    using print_concept_format by blast
qed

theorem main_output_witness:
  "(8::nat) \<le> 8 \<and> (\<exists>s. main 8 = Inr (0, s) \<and> out s = demo_text) \<and>
   (\<exists>s' C. print_concept (Some 5) demo_state = Inr s' \<and>
      conc_at demo_state (Some 5) = Some C \<and>
      out s' = out demo_state @ render_text demo_state C \<and>
      render_text demo_state C = demo_text)"
proof -
  let ?C = "\<lparr>id_c = Some 6, types = Some 7, slots = Some 11,
             slot_count = 1, slot_capacity = 2\<rparr>"
  from main_output [of 8] obtain s where s: "main 8 = Inr (0, s)" by auto
  with main_output [of 8] have o: "out s = demo_text" by blast
  have "\<not> isl (print_concept (Some 5) demo_state)" by code_simp
  then obtain s' where p: "print_concept (Some 5) demo_state = Inr s'"
    by (cases "print_concept (Some 5) demo_state") auto
  with main_output [of 8] obtain C where
    C: "conc_at demo_state (Some 5) = Some C"
    "out s' = out demo_state @ render_text demo_state C"
    by blast
  have "conc_at demo_state (Some 5) = Some ?C" by code_simp
  with C have "C = ?C" by simp
  moreover have "render_text demo_state ?C = demo_text" by code_simp
  ultimately have "render_text demo_state C = demo_text" by simp
  with s o p C show ?thesis by auto
qed

text \<open>
  C4. Construction copies. For an id and a type that point to strings, \<open>create_concept\<close>
  returns whenever three allocations are available, and whenever it returns, the new
  concept's id and type are strings with the caller's texts in cells that did not exist
  before the call: they differ from the caller's pointers and from each other, and
  overwriting any cell that existed before the call (the caller's buffers among them)
  leaves the stored id, the stored type and the concept as they are. The slot collection
  is empty: no slot array, count 0, capacity 0. Every cell that existed before is
  unchanged.
\<close>

theorem create_concept_copies:
  assumes i: "str_at s id_arg = Some i" and t: "str_at s type_arg = Some t"
  shows "(3 \<le> budget s \<longrightarrow> (\<exists>p s'. create_concept id_arg type_arg s = Inr (p, s'))) \<and>
     (\<forall>p s'. create_concept id_arg type_arg s = Inr (p, s') \<longrightarrow>
        (\<exists>C. conc_at s' p = Some C \<and>
             str_at s' (id_c C) = Some i \<and> str_at s' (types C) = Some t \<and>
             id_c C \<noteq> id_arg \<and> id_c C \<noteq> type_arg \<and>
             types C \<noteq> id_arg \<and> types C \<noteq> type_arg \<and> id_c C \<noteq> types C \<and>
             deref s (id_c C) = None \<and> deref s (types C) = None \<and> deref s p = None \<and>
             slots C = None \<and> slot_count C = 0 \<and> slot_capacity C = 0 \<and>
             (\<forall>a v. a < length (cells s) \<longrightarrow>
                str_at (store a v s') (id_c C) = Some i \<and>
                str_at (store a v s') (types C) = Some t \<and>
                conc_at (store a v s') p = Some C) \<and>
             (\<forall>a. a < length (cells s) \<longrightarrow> deref s' (Some a) = deref s (Some a))))"
proof (intro conjI allI impI)
  assume "3 \<le> budget s"
  from create_concept_ok [OF i t this]
  show "\<exists>p s'. create_concept id_arg type_arg s = Inr (p, s')" by blast
next
  fix p s'
  assume r: "create_concept id_arg type_arg s = Inr (p, s')"
  let ?L = "length (cells s)"
  let ?C = "\<lparr>id_c = Some (?L + 1), types = Some (?L + 2), slots = None,
             slot_count = 0, slot_capacity = 0\<rparr>"
  from create_concept_Inr [OF r] have b: "3 \<le> budget s" by blast
  from create_concept_ok [OF i t b] r
  have p: "p = Some ?L"
    and s': "s' = s\<lparr>cells := cells s @ [Some (Conc ?C), Some (Str i), Some (Str t)],
                    budget := budget s - 3\<rparr>"
    by simp_all
  from i obtain a where a: "id_arg = Some a" "a < ?L"
    by (cases id_arg) (auto simp: str_at_deref dest: deref_live)
  from t obtain d where d: "type_arg = Some d" "d < ?L"
    by (cases type_arg) (auto simp: str_at_deref dest: deref_live)
  have 1: "conc_at s' p = Some ?C"
    by (simp add: p s' conc_at_def deref_def nth_append)
  have 2: "str_at s' (id_c ?C) = Some i" "str_at s' (types ?C) = Some t"
    by (simp_all add: s' str_at_def deref_def nth_append)
  have 3: "id_c ?C \<noteq> id_arg" "id_c ?C \<noteq> type_arg" "types ?C \<noteq> id_arg"
    "types ?C \<noteq> type_arg" "id_c ?C \<noteq> types ?C"
    using a d by simp_all
  have 4: "deref s (id_c ?C) = None" "deref s (types ?C) = None" "deref s p = None"
    by (simp_all add: p deref_def)
  have 5: "str_at (store b v s') (id_c ?C) = Some i \<and>
           str_at (store b v s') (types ?C) = Some t \<and>
           conc_at (store b v s') p = Some ?C" if "b < ?L" for b v
    using that 1 2 by (simp add: str_at_def conc_at_def deref_store p)
  have 6: "deref s' (Some b) = deref s (Some b)" if "b < ?L" for b
    using that by (simp add: s' deref_def nth_append)
  show "\<exists>C. conc_at s' p = Some C \<and>
             str_at s' (id_c C) = Some i \<and> str_at s' (types C) = Some t \<and>
             id_c C \<noteq> id_arg \<and> id_c C \<noteq> type_arg \<and>
             types C \<noteq> id_arg \<and> types C \<noteq> type_arg \<and> id_c C \<noteq> types C \<and>
             deref s (id_c C) = None \<and> deref s (types C) = None \<and> deref s p = None \<and>
             slots C = None \<and> slot_count C = 0 \<and> slot_capacity C = 0 \<and>
             (\<forall>a v. a < length (cells s) \<longrightarrow>
                str_at (store a v s') (id_c C) = Some i \<and>
                str_at (store a v s') (types C) = Some t \<and>
                conc_at (store a v s') p = Some C) \<and>
             (\<forall>a. a < length (cells s) \<longrightarrow> deref s' (Some a) = deref s (Some a))"
    using 1 2 3 4 5 6 by (intro exI [of _ ?C]) simp
qed

theorem create_concept_copies_witness:
  "\<exists>p s' C. create_concept (Some 0) (Some 1) (main_init 8) = Inr (p, s') \<and>
      conc_at s' p = Some C \<and>
      str_at s' (id_c C) = Some ''john'' \<and> str_at s' (types C) = Some ''Person'' \<and>
      id_c C \<noteq> Some 0 \<and> types C \<noteq> Some 1 \<and>
      slots C = None \<and> slot_count C = 0 \<and> slot_capacity C = 0 \<and>
      str_at (store 0 (Some (Str ''jane'')) s') (id_c C) = Some ''john''"
proof -
  have i: "str_at (main_init 8) (Some 0) = Some ''john''" by code_simp
  have t: "str_at (main_init 8) (Some 1) = Some ''Person''" by code_simp
  have b: "3 \<le> budget (main_init 8)" by (simp add: main_init_def)
  have l: "0 < length (cells (main_init 8))" by (simp add: main_init_def)
  note th = create_concept_copies [OF i t]
  from th b obtain p s' where r: "create_concept (Some 0) (Some 1) (main_init 8) = Inr (p, s')"
    by blast
  from th r obtain C where
    "conc_at s' p = Some C" "str_at s' (id_c C) = Some ''john''"
    "str_at s' (types C) = Some ''Person''" "id_c C \<noteq> Some 0" "types C \<noteq> Some 1"
    "slots C = None" "slot_count C = 0" "slot_capacity C = 0"
    "\<forall>a v. a < length (cells (main_init 8)) \<longrightarrow>
        str_at (store a v s') (id_c C) = Some ''john'' \<and>
        str_at (store a v s') (types C) = Some ''Person'' \<and>
        conc_at (store a v s') p = Some C"
    by blast
  with r l show ?thesis by blast
qed

text \<open>
  C5 as stated fails where a concept is its own slot target, which \<open>add_slot\<close> accepts:
  john has the slot (owns, john), and the teardown of john releases john, a concept that
  john referenced as a target. That target is not unchanged and cannot be rendered.
\<close>

theorem free_concept_self_target:
  "conc_at self_loop_state (Some 5) =
     Some \<lparr>id_c = Some 6, types = Some 7, slots = Some 8, slot_count = 1, slot_capacity = 2\<rparr> \<and>
   slot_at self_loop_state
     \<lparr>id_c = Some 6, types = Some 7, slots = Some 8, slot_count = 1, slot_capacity = 2\<rparr> 0 =
     Some \<lparr>name = Some 9, target = Some 5\<rparr> \<and>
   free_concept (Some 5) self_loop_state = Inr self_loop_freed \<and>
   conc_at self_loop_freed (Some 5) = None \<and>
   print_concept (Some 5) self_loop_freed = Inl Undefined"
  by code_simp

text \<open>
  C5, amended. Teardown is shallow. When \<open>free_concept\<close> returns, the cells it released
  are exactly the concept's record and what the concept owns (its id string, its type
  string, the name string of each populated slot, its slot array); every other cell is as
  before. So every other concept, in particular every slot target other than the concept
  itself, is unchanged; and a concept whose rendering reads none of the released cells (a
  target that is not the concept torn down, shares no storage with it and has no slot
  pointing back to it) renders afterwards exactly as it did before.
\<close>

theorem free_concept_shallow:
  assumes r: "free_concept (Some c) s = Inr s'"
  shows "\<exists>C. conc_at s (Some c) = Some C \<and>
     (\<forall>q. deref s' q = (if q = Some c \<or> q \<in> set (owned s C) then None else deref s q)) \<and>
     (\<forall>q. q \<noteq> Some c \<longrightarrow> conc_at s' q = conc_at s q) \<and>
     (\<forall>i sl. slot_at s C i = Some sl \<and> target sl \<noteq> Some c \<longrightarrow>
        conc_at s' (target sl) = conc_at s (target sl)) \<and>
     (\<forall>t r. print_concept t s = Inr r \<and>
        (\<forall>p \<in> set (print_reads s t). p = None \<or> (p \<noteq> Some c \<and> p \<notin> set (owned s C))) \<longrightarrow>
        print_concept t s' = Inr (s'\<lparr>out := out r\<rparr>))"
  using r
proof (cases rule: free_concept_effect)
  case (released C)
  have pr: "print_concept t s' = Inr (s'\<lparr>out := out r\<rparr>)"
    if p: "print_concept t s = Inr r"
      and d: "\<forall>p \<in> set (print_reads s t). p = None \<or> (p \<noteq> Some c \<and> p \<notin> set (owned s C))"
    for t r
  proof (rule print_concept_agree [OF p])
    show "\<forall>p \<in> set (print_reads s t). deref s' p = deref s p"
    proof
      fix p assume "p \<in> set (print_reads s t)"
      with d have "p = None \<or> (p \<noteq> Some c \<and> p \<notin> set (owned s C))" by blast
      then show "deref s' p = deref s p"
        using released(2) [of p] by auto
    qed
    show "out s' = out s" by (rule released(7))
  qed
  show ?thesis
  proof (rule exI [of _ C], intro conjI allI impI)
    show "conc_at s (Some c) = Some C" by fact
    show "deref s' q = (if q = Some c \<or> q \<in> set (owned s C) then None else deref s q)" for q
      by (rule released(2))
    show "conc_at s' q = conc_at s q" if "q \<noteq> Some c" for q
      by (rule released(3) [OF that])
    show "conc_at s' (target sl) = conc_at s (target sl)"
      if "slot_at s C i = Some sl \<and> target sl \<noteq> Some c" for i sl
      using released(3) [of "target sl"] that by simp
    show "print_concept t s' = Inr (s'\<lparr>out := out r\<rparr>)"
      if "print_concept t s = Inr r \<and>
        (\<forall>p \<in> set (print_reads s t). p = None \<or> (p \<noteq> Some c \<and> p \<notin> set (owned s C)))"
      for t r
      using pr that by blast
  qed
qed

theorem free_concept_shallow_witness:
  "\<exists>s' C. free_concept (Some 5) demo_state = Inr s' \<and>
     conc_at demo_state (Some 5) = Some C \<and>
     slot_at demo_state C 0 = Some \<lparr>name = Some 12, target = Some 8\<rparr> \<and>
     conc_at s' (Some 8) = conc_at demo_state (Some 8) \<and>
     deref s' (Some 5) = None \<and> deref s' (Some 6) = None \<and> deref s' (Some 7) = None \<and>
     deref s' (Some 11) = None \<and> deref s' (Some 12) = None \<and>
     deref s' (Some 9) = Some (Str ''book'') \<and>
     print_concept (Some 8) s' =
       Inr (s'\<lparr>out := ''ID: book'' @ nl @ ''Types: Object'' @ nl @
                         ''Slots (# of slots = 0):'' @ nl\<rparr>)"
proof -
  let ?C = "\<lparr>id_c = Some 6, types = Some 7, slots = Some 11,
             slot_count = 1, slot_capacity = 2\<rparr>"
  let ?txt = "''ID: book'' @ nl @ ''Types: Object'' @ nl @ ''Slots (# of slots = 0):'' @ nl"
  have "\<not> isl (free_concept (Some 5) demo_state)" by code_simp
  then obtain s' where f: "free_concept (Some 5) demo_state = Inr s'"
    by (cases "free_concept (Some 5) demo_state") auto
  from free_concept_shallow [OF f] obtain C where
    C: "conc_at demo_state (Some 5) = Some C"
    and d: "\<forall>q. deref s' q =
        (if q = Some 5 \<or> q \<in> set (owned demo_state C) then None else deref demo_state q)"
    and k: "\<forall>q. q \<noteq> Some 5 \<longrightarrow> conc_at s' q = conc_at demo_state q"
    and p: "\<forall>t r. print_concept t demo_state = Inr r \<and>
        (\<forall>p \<in> set (print_reads demo_state t).
            p = None \<or> (p \<noteq> Some 5 \<and> p \<notin> set (owned demo_state C))) \<longrightarrow>
        print_concept t s' = Inr (s'\<lparr>out := out r\<rparr>)"
    by blast
  have C5: "conc_at demo_state (Some 5) = Some ?C" by code_simp
  with C have CC: "C = ?C" by simp
  have sl: "slot_at demo_state ?C 0 = Some \<lparr>name = Some 12, target = Some 8\<rparr>" by code_simp
  have ow: "owned demo_state ?C = [Some 6, Some 7, Some 11, Some 12]" by code_simp
  have rd: "print_reads demo_state (Some 8) = [Some 8, Some 9, Some 10, None]" by code_simp
  have pb: "print_concept (Some 8) demo_state = Inr (demo_state\<lparr>out := ?txt\<rparr>)" by code_simp
  have d9: "deref demo_state (Some 9) = Some (Str ''book'')" by code_simp
  have "print_concept (Some 8) s' = Inr (s'\<lparr>out := out (demo_state\<lparr>out := ?txt\<rparr>)\<rparr>)"
    using p [rule_format, of "Some 8" "demo_state\<lparr>out := ?txt\<rparr>"] pb
    by (simp add: rd ow CC)
  then have 1: "print_concept (Some 8) s' = Inr (s'\<lparr>out := ?txt\<rparr>)" by simp
  have 2: "deref s' (Some 5) = None" "deref s' (Some 6) = None" "deref s' (Some 7) = None"
    "deref s' (Some 11) = None" "deref s' (Some 12) = None"
    using d by (simp_all add: ow CC)
  have 3: "deref s' (Some 9) = Some (Str ''book'')"
    using d d9 by (simp add: ow CC)
  have 4: "conc_at s' (Some 8) = conc_at demo_state (Some 8)" using k by simp
  show ?thesis
    using f C5 sl 1 2 3 4 by blast
qed

text \<open>
  C6. An append with an absent concept, an absent name or an absent target returns
  normally and returns the state it was given: no cell of the heap (so no count, slot,
  capacity, id or type), no allocation and no output has changed. Each of the three
  positions alone is enough, whatever the other two arguments are.
\<close>

theorem add_slot_absent_noop:
  "add_slot None slot_name tgt s = Inr s \<and>
   add_slot concept None tgt s = Inr s \<and>
   add_slot concept slot_name None s = Inr s"
  by (cases concept) (simp_all add: add_slot_def)

theorem add_slot_absent_noop_witness:
  "add_slot None (Some 4) (Some 8) demo_state = Inr demo_state \<and>
   add_slot (Some 5) None (Some 8) demo_state = Inr demo_state \<and>
   add_slot (Some 5) (Some 4) None demo_state = Inr demo_state"
  using add_slot_absent_noop [of "Some 4" "Some 8" demo_state "Some 5"] by simp

text \<open>
  C7. The invariant. In a heap where every concept has its count at most its capacity
  (one with no concept yet, for instance), every run of calls that returns leaves every
  live concept with its count at most its capacity. Each operation that returns keeps
  this: \<open>create_concept\<close> adds a concept with count 0 and capacity 0 and leaves the
  others as they are; \<open>add_slot\<close> never lowers a capacity, and the only capacity it
  changes is that of the concept appended to, only when its count equals its capacity,
  and then to \<open>max(2, capacity * 2)\<close>: from 0 to 2, otherwise doubled;
  \<open>print_concept\<close> changes no concept; \<open>free_concept\<close> changes no concept but the
  one it releases.
\<close>

theorem count_le_capacity_preserved:
  "(live_inv s0 \<and> run calls s0 = Inr s \<and> conc_at s q0 = Some Q0 \<longrightarrow>
      slot_count Q0 \<le> slot_capacity Q0) \<and>
   (create_concept id_arg type_arg sa = Inr (p, sa') \<and> live_inv sa \<longrightarrow>
      live_inv sa' \<and>
      (\<exists>C. conc_at sa' p = Some C \<and> slot_count C = 0 \<and> slot_capacity C = 0) \<and>
      (\<forall>q Q. conc_at sa q = Some Q \<longrightarrow> conc_at sa' q = Some Q)) \<and>
   (add_slot concept slot_name tgt sb = Inr sb' \<and> live_inv sb \<longrightarrow>
      live_inv sb' \<and>
      (\<forall>q Q. conc_at sb q = Some Q \<longrightarrow>
         (\<exists>Q'. conc_at sb' q = Some Q' \<and> slot_capacity Q \<le> slot_capacity Q' \<and>
               (slot_capacity Q' \<noteq> slot_capacity Q \<longrightarrow>
                  q = concept \<and> slot_count Q = slot_capacity Q \<and>
                  slot_capacity Q' = max 2 (slot_capacity Q * 2))))) \<and>
   (print_concept shown sc = Inr sc' \<and> live_inv sc \<longrightarrow>
      live_inv sc' \<and> (\<forall>q. conc_at sc' q = conc_at sc q)) \<and>
   (free_concept freed sd = Inr sd' \<and> live_inv sd \<longrightarrow>
      live_inv sd' \<and> (\<forall>q. q \<noteq> freed \<longrightarrow> conc_at sd' q = conc_at sd q) \<and>
      (\<forall>q Q. conc_at sd' q = Some Q \<longrightarrow> conc_at sd q = Some Q))"
proof -
  have 0: "live_inv s0 \<and> run calls s0 = Inr s \<and> conc_at s q0 = Some Q0 \<longrightarrow>
      slot_count Q0 \<le> slot_capacity Q0"
  proof
    assume h: "live_inv s0 \<and> run calls s0 = Inr s \<and> conc_at s q0 = Some Q0"
    then have "live_inv s" using run_inv [of calls s0 s] by simp
    with h show "slot_count Q0 \<le> slot_capacity Q0"
      by (auto simp: live_inv_iff count_le_capacity_def)
  qed
  note 1 = create_concept_inv [of id_arg type_arg sa p sa']
    and 2 = add_slot_inv [of concept slot_name tgt sb sb']
    and 3 = print_concept_inv [of shown sc sc']
    and 4 = free_concept_inv [of freed sd sd']
  from 0 1 2 3 4 show ?thesis by blast
qed

theorem count_le_capacity_preserved_witness:
  "\<exists>s Q p sa' sb' sc' sd'.
     live_inv (main_init 8) \<and>
     run [Construct (Some 0) (Some 1), Construct (Some 2) (Some 3),
          Append (Some 5) (Some 4) (Some 8), Render (Some 5), Teardown (Some 5)]
       (main_init 8) = Inr s \<and>
     conc_at s (Some 8) = Some Q \<and> slot_count Q \<le> slot_capacity Q \<and>
     create_concept (Some 0) (Some 1) (main_init 8) = Inr (p, sa') \<and> live_inv sa' \<and>
     add_slot (Some 5) (Some 4) (Some 8) (demo_state\<lparr>budget := 2\<rparr>) = Inr sb' \<and>
     live_inv (demo_state\<lparr>budget := 2\<rparr>) \<and> live_inv sb' \<and>
     print_concept (Some 5) demo_state = Inr sc' \<and> live_inv demo_state \<and> live_inv sc' \<and>
     free_concept (Some 5) demo_state = Inr sd' \<and> live_inv sd'"
proof -
  let ?sb = "demo_state\<lparr>budget := 2\<rparr>"
  let ?calls = "[Construct (Some 0) (Some 1), Construct (Some 2) (Some 3),
          Append (Some 5) (Some 4) (Some 8), Render (Some 5), Teardown (Some 5)]"
  let ?Q = "\<lparr>id_c = Some 9, types = Some 10, slots = None,
             slot_count = 0, slot_capacity = 0\<rparr>"
  have "\<not> isl (run ?calls (main_init 8))" by code_simp
  then obtain s where r: "run ?calls (main_init 8) = Inr s"
    by (cases "run ?calls (main_init 8)") auto
  have "case run ?calls (main_init 8) of Inl e \<Rightarrow> False
        | Inr u \<Rightarrow> conc_at u (Some 8) = Some ?Q" by code_simp
  with r have q: "conc_at s (Some 8) = Some ?Q" by simp
  have "\<not> isl (create_concept (Some 0) (Some 1) (main_init 8))" by code_simp
  then obtain p sa' where a: "create_concept (Some 0) (Some 1) (main_init 8) = Inr (p, sa')"
    by (cases "create_concept (Some 0) (Some 1) (main_init 8)") auto
  have "\<not> isl (add_slot (Some 5) (Some 4) (Some 8) ?sb)" by code_simp
  then obtain sb' where b: "add_slot (Some 5) (Some 4) (Some 8) ?sb = Inr sb'"
    by (cases "add_slot (Some 5) (Some 4) (Some 8) ?sb") auto
  have "\<not> isl (print_concept (Some 5) demo_state)" by code_simp
  then obtain sc' where c: "print_concept (Some 5) demo_state = Inr sc'"
    by (cases "print_concept (Some 5) demo_state") auto
  have "\<not> isl (free_concept (Some 5) demo_state)" by code_simp
  then obtain sd' where d: "free_concept (Some 5) demo_state = Inr sd'"
    by (cases "free_concept (Some 5) demo_state") auto
  have l: "live_inv (main_init 8)" "live_inv ?sb" "live_inv demo_state" by code_simp+
  note th = count_le_capacity_preserved [of "main_init 8" ?calls s "Some 8" ?Q
      "Some 0" "Some 1" "main_init 8" p sa'
      "Some 5" "Some 4" "Some 8" ?sb sb' "Some 5" demo_state sc' "Some 5" demo_state sd']
  from th r q l have "slot_count ?Q \<le> slot_capacity ?Q" by blast
  moreover from th a b c d l have "live_inv sa'" "live_inv sb'" "live_inv sc'" "live_inv sd'"
    by blast+
  ultimately show ?thesis using r q a b c d l by blast
qed

text \<open>
  C8. Rendering and teardown of an absent concept return normally with the state
  unchanged: no output, no release, no error.
\<close>

theorem absent_concept_noop:
  "print_concept None s = Inr s \<and> free_concept None s = Inr s"
  by (simp add: print_concept_def free_concept_def)

theorem absent_concept_noop_witness:
  "print_concept None demo_state = Inr demo_state \<and>
   free_concept None demo_state = Inr demo_state"
  using absent_concept_noop [of demo_state] by simp

text \<open>
  C9. Rendering only observes. When \<open>print_concept\<close> returns, the heap is cell for cell
  the heap it started from and the allocator is untouched: every concept, the rendered
  one and each target it read, has the same id, type, slot array, count and capacity,
  every string and every slot (name and target) is as before. Only text was appended to
  the standard output.
\<close>

theorem print_concept_observer:
  assumes "print_concept concept s = Inr s'"
  shows "cells s' = cells s \<and> budget s' = budget s \<and>
         (\<exists>txt. out s' = out s @ txt) \<and>
         (\<forall>q. conc_at s' q = conc_at s q) \<and>
         (\<forall>q. str_at s' q = str_at s q) \<and>
         (\<forall>q. arr_at s' q = arr_at s q) \<and>
         (\<forall>C i. slot_at s' C i = slot_at s C i)"
proof -
  from print_concept_frame [OF assms]
  have c: "cells s' = cells s" and b: "budget s' = budget s"
    and o: "\<exists>txt. out s' = out s @ txt"
    by auto
  have d: "\<And>q. deref s' q = deref s q"
    by (rule deref_cells [OF c])
  show ?thesis
    using c b o by (simp add: conc_at_def str_at_def arr_at_def slot_at_def d)
qed

theorem print_concept_observer_witness:
  "print_concept (Some 5) demo_state = Inr (demo_state\<lparr>out := demo_text\<rparr>) \<and>
   cells (demo_state\<lparr>out := demo_text\<rparr>) = cells demo_state \<and>
   conc_at (demo_state\<lparr>out := demo_text\<rparr>) (Some 8) = conc_at demo_state (Some 8)"
proof -
  have h: "print_concept (Some 5) demo_state = Inr (demo_state\<lparr>out := demo_text\<rparr>)"
    by code_simp
  from print_concept_observer [OF h] h show ?thesis
    by blast
qed

text \<open>
  C10. A successful append writes to the source concept only. Every other concept,
  the target included when it is another concept, has the same record afterwards; no
  string and no other slot array is changed, so the populated slots of every other
  concept are as before; the only cells of the old heap that differ are the source's
  record and the source's own slot array. In the source the id and the type are the same
  pointers to the same strings, and every slot committed before has the same name and
  target.
\<close>

theorem add_slot_frame:
  assumes r: "add_slot (Some c) (Some np) (Some t) s = Inr s'"
  shows "\<exists>C C'. conc_at s (Some c) = Some C \<and> conc_at s' (Some c) = Some C' \<and>
     (\<forall>q. q \<noteq> Some c \<longrightarrow> conc_at s' q = conc_at s q) \<and>
     (t \<noteq> c \<longrightarrow> conc_at s' (Some t) = conc_at s (Some t)) \<and>
     (\<forall>p x. str_at s p = Some x \<longrightarrow> str_at s' p = Some x) \<and>
     (\<forall>p xs. p \<noteq> slots C \<and> arr_at s p = Some xs \<longrightarrow> arr_at s' p = Some xs) \<and>
     (\<forall>q Q i sl. q \<noteq> Some c \<and> conc_at s q = Some Q \<and> slots Q \<noteq> slots C \<and>
         slot_at s Q i = Some sl \<longrightarrow> slot_at s' Q i = Some sl) \<and>
     (\<forall>a. a < length (cells s) \<and> a \<noteq> c \<and> Some a \<noteq> slots C \<longrightarrow>
         deref s' (Some a) = deref s (Some a)) \<and>
     id_c C' = id_c C \<and> types C' = types C \<and>
     (\<forall>i. 0 \<le> i \<and> i < slot_count C \<longrightarrow> slot_at s' C' i = slot_at s C i) \<and>
     out s' = out s"
  using r
proof (cases rule: add_slot_effect)
  case (1 C C' nm x)
  have other: "slot_at s' Q i = Some sl"
    if "slots Q \<noteq> slots C" "slot_at s Q i = Some sl" for Q i sl
  proof -
    from that(2) obtain xs where xs: "arr_at s (slots Q) = Some xs"
      by (cases "arr_at s (slots Q)") (auto simp: slot_at_def)
    from "1"(19) [OF that(1) xs] have "arr_at s' (slots Q) = Some xs" .
    with xs that(2) show ?thesis by (simp add: slot_at_def)
  qed
  show ?thesis
  proof (rule exI [of _ C], rule exI [of _ C'], intro conjI allI impI)
    show "conc_at s (Some c) = Some C" "conc_at s' (Some c) = Some C'" by fact+
    show "id_c C' = id_c C" "types C' = types C" "out s' = out s" by fact+
    show "conc_at s' q = conc_at s q" if "q \<noteq> Some c" for q by (rule "1"(17) [OF that])
    show "conc_at s' (Some t) = conc_at s (Some t)" if "t \<noteq> c"
      using "1"(17) [of "Some t"] that by simp
    show "str_at s' p = Some y" if "str_at s p = Some y" for p y by (rule "1"(18) [OF that])
    show "arr_at s' p = Some xs" if "p \<noteq> slots C \<and> arr_at s p = Some xs" for p xs
      using "1"(19) that by blast
    show "slot_at s' Q i = Some sl"
      if "q \<noteq> Some c \<and> conc_at s q = Some Q \<and> slots Q \<noteq> slots C \<and> slot_at s Q i = Some sl"
      for q Q i sl
      using other that by blast
    show "deref s' (Some a) = deref s (Some a)"
      if "a < length (cells s) \<and> a \<noteq> c \<and> Some a \<noteq> slots C" for a
      using "1"(13) that by blast
    show "slot_at s' C' i = slot_at s C i" if "0 \<le> i \<and> i < slot_count C" for i
      using "1"(12) that by blast
  qed
qed

theorem add_slot_frame_witness:
  "\<exists>s' C C'.
     add_slot (Some 5) (Some 4) (Some 8) (demo_state\<lparr>budget := 2\<rparr>) = Inr s' \<and>
     conc_at (demo_state\<lparr>budget := 2\<rparr>) (Some 5) = Some C \<and>
     conc_at s' (Some 5) = Some C' \<and>
     conc_at s' (Some 8) = conc_at (demo_state\<lparr>budget := 2\<rparr>) (Some 8) \<and>
     id_c C' = id_c C \<and> types C' = types C \<and>
     slot_at s' C' 0 = slot_at (demo_state\<lparr>budget := 2\<rparr>) C 0"
proof -
  let ?s = "demo_state\<lparr>budget := 2\<rparr>"
  have "\<not> isl (add_slot (Some 5) (Some 4) (Some 8) ?s)" by code_simp
  then obtain s' where a: "add_slot (Some 5) (Some 4) (Some 8) ?s = Inr s'"
    by (cases "add_slot (Some 5) (Some 4) (Some 8) ?s") auto
  from add_slot_frame [OF a] obtain C C' where
    1: "conc_at ?s (Some 5) = Some C" "conc_at s' (Some 5) = Some C'"
    and 2: "\<forall>q. q \<noteq> Some 5 \<longrightarrow> conc_at s' q = conc_at ?s q"
    and 3: "id_c C' = id_c C" "types C' = types C"
    and 4: "\<forall>i. 0 \<le> i \<and> i < slot_count C \<longrightarrow> slot_at s' C' i = slot_at ?s C i"
    by blast
  have "conc_at ?s (Some 5) =
      Some \<lparr>id_c = Some 6, types = Some 7, slots = Some 11,
            slot_count = 1, slot_capacity = 2\<rparr>" by code_simp
  with 1 have "C = \<lparr>id_c = Some 6, types = Some 7, slots = Some 11,
                  slot_count = 1, slot_capacity = 2\<rparr>" by simp
  then have "slot_count C = 1" by simp
  with 4 have "slot_at s' C' 0 = slot_at ?s C 0" by simp
  moreover from 2 have "conc_at s' (Some 8) = conc_at ?s (Some 8)" by simp
  ultimately show ?thesis using a 1 3 by blast
qed

end
